theory Spec2Isabelle
  imports Complex_Main "HOL-Library.Log_Nat" "HOL-Library.Monad_Syntax"
    "HOL-Library.Multiset"
begin

section \<open>JavaScript numbers on integer values\<close>

text \<open>
  A JavaScript \<^verbatim>\<open>number\<close> is an IEEE 754 binary64 value. Every value the summation
  strategies compute from an integer input is an integer, so a number is modelled by the
  integer it denotes, and each arithmetic operation of the source is the exact integer
  operation followed by \<open>roundTiesToEven\<close>, the rounding to the nearest value with a
  53-bit significand (ties go to the even significand). Magnitudes stay far below
  \<open>2 ^ 1024\<close>, so the overflow to \<^verbatim>\<open>Infinity\<close> is never reached and is left out.
  Variables the source calls \<^verbatim>\<open>sum\<close> and \<^verbatim>\<open>end\<close> are \<open>s\<close> and \<open>stop\<close> here.
\<close>

definition roundTiesToEven :: "int \<Rightarrow> int" where
  "roundTiesToEven x =
     (if bitlen \<bar>x\<bar> \<le> 53 then x
      else let e = nat (bitlen \<bar>x\<bar> - 53);
               q = \<bar>x\<bar> div 2 ^ e;
               r = \<bar>x\<bar> mod 2 ^ e;
               half = 2 ^ (e - 1);
               q' = (if half < r \<or> (r = half \<and> odd q) then q + 1 else q)
           in sgn x * (q' * 2 ^ e))"

text \<open>The operators \<^verbatim>\<open>+\<close>, \<^verbatim>\<open>-\<close> and \<^verbatim>\<open>*\<close> of the source on numbers.\<close>

definition num_add :: "int \<Rightarrow> int \<Rightarrow> int" where
  "num_add a b = roundTiesToEven (a + b)"

definition num_sub :: "int \<Rightarrow> int \<Rightarrow> int" where
  "num_sub a b = roundTiesToEven (a - b)"

definition num_mul :: "int \<Rightarrow> int \<Rightarrow> int" where
  "num_mul a b = roundTiesToEven (a * b)"

text \<open>
  \<^verbatim>\<open>Math.ceil(a / b)\<close> for integers \<open>a\<close> and \<open>b\<close> up to \<open>2 ^ 53\<close> in magnitude, \<open>b\<close> not
  0. The rounded quotient lies on the same side of every integer as the exact one (a
  non-integer quotient is at least \<open>1 / b\<close> away from the integer below it, more than half
  a unit in its last place), so the ceiling is the exact one.
\<close>

definition ceil_quotient :: "int \<Rightarrow> int \<Rightarrow> int" where
  "ceil_quotient a b = - ((- a) div b)"

text \<open>Decimal digits, as \<^verbatim>\<open>String(x)\<close> and template literals print an integer.\<close>

fun digits :: "nat \<Rightarrow> string" where
  "digits n = (if n < 10 then [''0123456789'' ! n] else digits (n div 10) @ [''0123456789'' ! (n mod 10)])"

definition decimal :: "int \<Rightarrow> string" where
  "decimal x = (if x < 0 then ''-'' @ digits (nat (- x)) else digits (nat x))"

text \<open>
  A value thrown by \<^verbatim>\<open>throw\<close> or carried by a rejected promise: an \<^verbatim>\<open>Error\<close> object
  (of any subclass) with its message, or any other value, kept as the string
  \<^verbatim>\<open>String(err)\<close> makes of it.
\<close>

datatype thrown = ErrorObject string | OtherValue string

section \<open>Summation strategies\<close>

subsection \<open>Closed forms\<close>

text \<open>
  \<^verbatim>\<open>mathFormula(n) = (n * (n - 1)) / 2\<close>. Halving a binary64 value is exact, and the
  rounded product is always even (lemma \<open>mathFormula_dividend_even\<close>), so the quotient
  is the integer \<open>div 2\<close>.
\<close>

definition mathFormula :: "int \<Rightarrow> int" where
  "mathFormula n = num_mul n (num_sub n 1) div 2"

text \<open>
  \<^verbatim>\<open>mathFormulaBigInt\<close> converts to \<^verbatim>\<open>BigInt\<close> and computes on unbounded integers;
  BigInt division truncates, and the dividend \<open>n * (n - 1)\<close> is never negative.
\<close>

definition mathFormulaBigInt :: "int \<Rightarrow> int" where
  "mathFormulaBigInt n = (let bigN = n in (bigN * (bigN - 1)) div 2)"

subsection \<open>Loops\<close>

text \<open>
  The counting loop \<^verbatim>\<open>for (; i < limit; i++) sum += i\<close>. The source has it five times:
  the body of \<^verbatim>\<open>optimizedLoop\<close>, the remainder loops \<^verbatim>\<open>while (i < n) sum += i++\<close> of
  \<^verbatim>\<open>assemblyStyleLoop\<close> and \<^verbatim>\<open>simdStyle\<close>, the inner loop of \<^verbatim>\<open>cacheFriendly\<close> and the
  worker thread. The counter is a number too: above \<open>2 ^ 53\<close> the increment rounds back
  and the loop does not end, which is the value \<open>None\<close>. Progress reporting only
  prints and is left out.
\<close>

partial_function (option) sumLoop :: "int \<Rightarrow> int \<Rightarrow> int \<Rightarrow> int option" where
  "sumLoop limit i s =
     (if i < limit then sumLoop limit (num_add i 1) (num_add s i) else Some s)"

declare sumLoop.simps [code]

definition optimizedLoop :: "int \<Rightarrow> int option" where
  "optimizedLoop n = (let limit = n in sumLoop limit 0 0)"

text \<open>
  The unrolled body \<^verbatim>\<open>i + (i + 1) + ... + (i + 15)\<close> associates to the left, every
  \<^verbatim>\<open>+\<close> rounding.
\<close>

definition unrolled16 :: "int \<Rightarrow> int" where
  "unrolled16 i =
     foldl num_add i (map (num_add i) [1, 2, 3, 4, 5, 6, 7, 8, 9, 10, 11, 12, 13, 14, 15])"

partial_function (option) assemblyStyle_unrolled ::
  "int \<Rightarrow> int \<Rightarrow> int \<Rightarrow> (int \<times> int) option" where
  "assemblyStyle_unrolled limit i s =
     (if i < limit
      then assemblyStyle_unrolled limit (num_add i 16) (num_add s (unrolled16 i))
      else Some (i, s))"

declare assemblyStyle_unrolled.simps [code]

text \<open>\<^verbatim>\<open>Math.floor(n / 16)\<close> is exact: dividing a number by a power of two only shifts it.\<close>

definition assemblyStyleLoop :: "int \<Rightarrow> int option" where
  "assemblyStyleLoop n =
     (let unrollFactor = 16;
          limit = num_mul (n div unrollFactor) unrollFactor
      in do {
        (i, s) \<leftarrow> assemblyStyle_unrolled limit 0 0;
        sumLoop n i s
      })"

partial_function (option) simdStyle_vectors ::
  "int \<Rightarrow> int \<Rightarrow> int \<Rightarrow> (int \<times> int) option" where
  "simdStyle_vectors limit i s =
     (if i < limit
      then let base = i
           in simdStyle_vectors limit (num_add i 8) (num_add s (num_add (num_mul base 8) 28))
      else Some (i, s))"

declare simdStyle_vectors.simps [code]

definition simdStyle :: "int \<Rightarrow> int option" where
  "simdStyle n =
     (let vectorSize = 8;
          limit = num_mul (n div vectorSize) vectorSize
      in do {
        (i, s) \<leftarrow> simdStyle_vectors limit 0 0;
        sumLoop n i s
      })"

text \<open>
  \<^verbatim>\<open>typedArrayOptimal\<close>: the store \<^verbatim>\<open>arr[i] = value\<close> is never read and is left out;
  \<^verbatim>\<open>new Uint32Array(currentSize)\<close> throws a RangeError on a negative length. With
  \<open>n = 0\<close> the batch size is 0, \<^verbatim>\<open>n / batchSize\<close> is NaN and the loop body never runs.
  \<^verbatim>\<open>config.batchSize\<close> is 10000000.
\<close>

partial_function (option) typedArray_fill ::
  "int \<Rightarrow> int \<Rightarrow> int \<Rightarrow> int \<Rightarrow> int option" where
  "typedArray_fill currentSize start i s =
     (if i < currentSize
      then let v = num_add start i
           in typedArray_fill currentSize start (num_add i 1) (num_add s v)
      else Some s)"

declare typedArray_fill.simps [code]

partial_function (option) typedArray_batches ::
  "int \<Rightarrow> int \<Rightarrow> int \<Rightarrow> int \<Rightarrow> int \<Rightarrow> (thrown + int) option" where
  "typedArray_batches n batchSize batches batch s =
     (if batch < batches then
        let start = num_mul batch batchSize;
            stop = min (num_add start batchSize) n;
            currentSize = num_sub stop start
        in if currentSize < 0
           then Some (Inl (ErrorObject (''Invalid typed array length: '' @ decimal currentSize)))
           else do {
             s' \<leftarrow> typedArray_fill currentSize start 0 s;
             typedArray_batches n batchSize batches (num_add batch 1) s'
           }
      else Some (Inr s))"

declare typedArray_batches.simps [code]

definition typedArrayOptimal :: "int \<Rightarrow> (thrown + int) option" where
  "typedArrayOptimal n =
     (let batchSize = min 10000000 n
      in if batchSize = 0 then Some (Inr 0)
         else typedArray_batches n batchSize (ceil_quotient n batchSize) 0 0)"

text \<open>\<^verbatim>\<open>cacheFriendly\<close>: the chunk size is \<open>(64 / 4) * 1000 = 16000\<close>.\<close>

partial_function (option) cacheFriendly_chunks ::
  "int \<Rightarrow> int \<Rightarrow> int \<Rightarrow> int \<Rightarrow> int option" where
  "cacheFriendly_chunks n chunkSize chunk s =
     (if chunk < n then do {
        s' \<leftarrow> sumLoop (min (num_add chunk chunkSize) n) chunk s;
        cacheFriendly_chunks n chunkSize (num_add chunk chunkSize) s'
      }
      else Some s)"

declare cacheFriendly_chunks.simps [code]

definition cacheFriendly :: "int \<Rightarrow> int option" where
  "cacheFriendly n =
     (let cacheLineSize = 64;
          intsPerCacheLine = cacheLineSize div 4;
          chunkSize = num_mul intsPerCacheLine 1000
      in cacheFriendly_chunks n chunkSize 0 0)"

text \<open>
  \<^verbatim>\<open>tailRecursive\<close>: the engine makes no tail calls, so every call takes a stack frame.
  The first argument is the number of frames the stack still has; with none left the
  call throws the RangeError of a stack overflow.
\<close>

fun tailRecursive :: "nat \<Rightarrow> int \<Rightarrow> int \<Rightarrow> int \<Rightarrow> thrown + int" where
  "tailRecursive 0 n s current = Inl (ErrorObject ''Maximum call stack size exceeded'')"
| "tailRecursive (Suc frames) n s current =
     (if n \<le> current then Inr s
      else tailRecursive frames n (num_add s current) (num_add current 1))"

subsection \<open>Parallel workers\<close>

text \<open>The worker thread: \<^verbatim>\<open>for (let i = start; i < end; i++) sum += i\<close>.\<close>

definition worker :: "int \<Rightarrow> int \<Rightarrow> int option" where
  "worker start stop = sumLoop stop start 0"

text \<open>
  What the main thread sees of one worker, in order of arrival: the posted message, an
  \<^verbatim>\<open>error\<close> event, the \<^verbatim>\<open>exit\<close> event with its code, and the 5-minute timer of
  \<^verbatim>\<open>createWorker\<close> firing. Each handler clears the timer; a promise is settled once, by
  the first \<^verbatim>\<open>resolve\<close> or \<^verbatim>\<open>reject\<close>.
\<close>

datatype worker_event = Message int | ErrorEvent thrown | Exit int | TimerFired

datatype 'a promise = Pending | Resolved 'a | Rejected thrown

fun resolve :: "'a \<Rightarrow> 'a promise \<Rightarrow> 'a promise" where
  "resolve v Pending = Resolved v"
| "resolve v p = p"

fun reject :: "thrown \<Rightarrow> 'a promise \<Rightarrow> 'a promise" where
  "reject e Pending = Rejected e"
| "reject e p = p"

text \<open>The state of one \<^verbatim>\<open>createWorker\<close> call: its promise, and whether the timer is set.\<close>

fun handle :: "int promise \<times> bool \<Rightarrow> worker_event \<Rightarrow> int promise \<times> bool" where
  "handle (p, timer) (Message result) = (resolve result p, False)"
| "handle (p, timer) (ErrorEvent error) = (reject error p, False)"
| "handle (p, timer) (Exit code) =
     (if code \<noteq> 0
      then reject (ErrorObject (''Worker stopped with exit code '' @ decimal code)) p
      else p, False)"
| "handle (p, timer) TimerFired =
     (if timer then (reject (ErrorObject ''Worker timeout'') p, timer) else (p, timer))"

definition createWorker :: "(int \<Rightarrow> int \<Rightarrow> worker_event list) \<Rightarrow> int \<Rightarrow> int \<Rightarrow> int promise" where
  "createWorker run start stop = fst (foldl handle (Pending, True) (run start stop))"

text \<open>
  A worker that nothing disturbs posts its sum and exits with code 0; one whose loop
  does not end is stopped by the timer.
\<close>

definition undisturbed :: "int \<Rightarrow> int \<Rightarrow> worker_event list" where
  "undisturbed start stop =
     (case worker start stop of Some result \<Rightarrow> [Message result, Exit 0]
      | None \<Rightarrow> [TimerFired, Exit 1])"

text \<open>
  The dispatch loop of \<^verbatim>\<open>parallelWorkers\<close>, from worker \<open>i\<close> on. With no CPU reported
  the loop body never runs, whatever \<^verbatim>\<open>n / 0\<close> is.
\<close>

function workRanges_from :: "int \<Rightarrow> int \<Rightarrow> nat \<Rightarrow> nat \<Rightarrow> (int \<times> int) list" where
  "workRanges_from n chunkSize numWorkers i =
     (if i < numWorkers then
        let start = num_mul (int i) chunkSize;
            stop = min (num_add start chunkSize) n
        in if n \<le> start then []
           else (start, stop) # workRanges_from n chunkSize numWorkers (Suc i)
      else [])"
  by pat_completeness auto
termination
  by (relation "measure (\<lambda>(n, chunkSize, numWorkers, i). numWorkers - i)") auto

declare workRanges_from.simps [simp del]

definition workRanges :: "nat \<Rightarrow> int \<Rightarrow> (int \<times> int) list" where
  "workRanges numWorkers n =
     (let chunkSize = ceil_quotient n (int numWorkers)
      in workRanges_from n chunkSize numWorkers 0)"

text \<open>
  \<^verbatim>\<open>Promise.all\<close>: rejected as soon as one promise is (the model reports the first
  rejection in list order), never settled while one stays pending, otherwise resolved
  with the values in order.
\<close>

fun first_rejection :: "'a promise list \<Rightarrow> thrown option" where
  "first_rejection [] = None"
| "first_rejection (Rejected e # ps) = Some e"
| "first_rejection (p # ps) = first_rejection ps"

fun resolved_values :: "'a promise list \<Rightarrow> 'a list option" where
  "resolved_values [] = Some []"
| "resolved_values (Resolved v # ps) = map_option ((#) v) (resolved_values ps)"
| "resolved_values (p # ps) = None"

definition promise_all :: "'a promise list \<Rightarrow> 'a list promise" where
  "promise_all ps =
     (case first_rejection ps of Some e \<Rightarrow> Rejected e
      | None \<Rightarrow> (case resolved_values ps of Some vs \<Rightarrow> Resolved vs | None \<Rightarrow> Pending))"

text \<open>
  \<^verbatim>\<open>parallelWorkers\<close>, given \<^verbatim>\<open>os.cpus().length\<close> and what each spawned worker does.
  A pending result is an \<^verbatim>\<open>await\<close> that never returns.
\<close>

definition parallelWorkers ::
  "nat \<Rightarrow> (int \<Rightarrow> int \<Rightarrow> worker_event list) \<Rightarrow> int \<Rightarrow> int promise" where
  "parallelWorkers numWorkers run n =
     (let promises = map (\<lambda>(start, stop). createWorker run start stop) (workRanges numWorkers n)
      in case promise_all promises of
           Resolved results \<Rightarrow> Resolved (foldl num_add 0 results)
         | Rejected e \<Rightarrow> Rejected e
         | Pending \<Rightarrow> Pending)"

text \<open>
  A list of ranges tiles \<open>[a, b)\<close>: every range is non-empty, the first starts at \<open>a\<close>,
  each next one starts where the one before stopped, and the last stops at \<open>b\<close>.
\<close>

fun tiles :: "int \<Rightarrow> (int \<times> int) list \<Rightarrow> int \<Rightarrow> bool" where
  "tiles a [] b = (a = b)"
| "tiles a ((start, stop) # rs) b = (start = a \<and> a < stop \<and> tiles stop rs b)"

section \<open>Benchmark results, ranking and verification\<close>

text \<open>
  Measured quantities (times, memory, throughput, speedups) are numbers that need not be
  integers. They are modelled by their real value, or one of the three special values;
  rounding of these quantities and the sign of zero are not modelled.
\<close>

datatype number = Fin real | PosInf | NegInf | NaN

fun js_sub :: "number \<Rightarrow> number \<Rightarrow> number" where
  "js_sub (Fin a) (Fin b) = Fin (a - b)"
| "js_sub NaN y = NaN"
| "js_sub x NaN = NaN"
| "js_sub PosInf PosInf = NaN"
| "js_sub NegInf NegInf = NaN"
| "js_sub PosInf y = PosInf"
| "js_sub NegInf y = NegInf"
| "js_sub (Fin a) PosInf = NegInf"
| "js_sub (Fin a) NegInf = PosInf"

fun js_div :: "number \<Rightarrow> number \<Rightarrow> number" where
  "js_div (Fin a) (Fin b) =
     (if b \<noteq> 0 then Fin (a / b)
      else if a = 0 then NaN else if 0 < a then PosInf else NegInf)"
| "js_div NaN y = NaN"
| "js_div x NaN = NaN"
| "js_div (Fin a) y = Fin 0"
| "js_div x (Fin b) = (if (x = PosInf) = (0 \<le> b) then PosInf else NegInf)"
| "js_div x y = NaN"

text \<open>The value a strategy returns: a number with an integer value, or a BigInt.\<close>

datatype js_value = Number int | BigInt int

text \<open>
  \<^verbatim>\<open>toString()\<close> of such a value. A BigInt prints all its digits. A number prints all
  its digits below \<open>2^53\<close>; from there on an engine prints the shortest digits that read
  back as the same number, so this function is the source's only up to \<open>2^53\<close> and for
  the larger numbers whose shortest digits are all their digits, such as
  499999999500000000.
\<close>

fun toString :: "js_value \<Rightarrow> string" where
  "toString (Number x) = decimal x"
| "toString (BigInt x) = decimal x"

text \<open>
  \<^verbatim>\<open>x.toFixed(2)\<close>: the integer \<open>n\<close> with \<open>n / 100\<close> nearest to \<open>x\<close> (the larger one of
  two), printed with two decimals. Values from \<open>10^21\<close> on print as \<^verbatim>\<open>toString\<close> does
  and are not modelled.
\<close>

definition toFixed2 :: "number \<Rightarrow> string" where
  "toFixed2 x =
     (case x of
        NaN \<Rightarrow> ''NaN''
      | PosInf \<Rightarrow> ''Infinity''
      | NegInf \<Rightarrow> ''-Infinity''
      | Fin v \<Rightarrow>
          (let n = \<lfloor>\<bar>v\<bar> * 100 + 1 / 2\<rfloor>;
               body = digits (nat (n div 100)) @ ''.'' @ digits (nat (n mod 100 div 10))
                 @ digits (nat (n mod 10))
           in if v < 0 then ''-'' @ body else body))"

definition padStart :: "nat \<Rightarrow> string \<Rightarrow> string" where
  "padStart width str = replicate (width - length str) CHR '' '' @ str"

record BenchmarkResult =
  name :: string
  time :: number
  result :: js_value
  memoryUsed :: number
  opsPerSecond :: number
  error :: "string option"

text \<open>
  \<^verbatim>\<open>!r.error\<close>: true when the field is absent, and also when it holds the empty string.
\<close>

definition no_error :: "BenchmarkResult \<Rightarrow> bool" where
  "no_error r = (case error r of None \<Rightarrow> True | Some str \<Rightarrow> str = [])"

text \<open>
  \<^verbatim>\<open>Array.prototype.sort\<close> with a comparator is stable; \<open>b\<close> goes before \<open>a\<close> when
  \<^verbatim>\<open>compare(a, b) > 0\<close>, and a NaN from the comparator counts as 0. With times that
  are not NaN the comparator \<^verbatim>\<open>a.time - b.time\<close> is consistent and the result is the
  one of this insertion sort; with a NaN time the engine's order is its own choice.
\<close>

fun positive :: "number \<Rightarrow> bool" where
  "positive (Fin v) = (0 < v)"
| "positive PosInf = True"
| "positive x = False"

fun insert_sorted :: "('a \<Rightarrow> 'a \<Rightarrow> number) \<Rightarrow> 'a \<Rightarrow> 'a list \<Rightarrow> 'a list" where
  "insert_sorted compare a [] = [a]"
| "insert_sorted compare a (b # bs) =
     (if positive (compare a b) then b # insert_sorted compare a bs else a # b # bs)"

definition array_sort :: "('a \<Rightarrow> 'a \<Rightarrow> number) \<Rightarrow> 'a list \<Rightarrow> 'a list" where
  "array_sort compare xs = foldr (insert_sorted compare) xs []"

text \<open>
  One line of the ranking table. Of its columns the model keeps the rank, the result
  itself, and the speedup with its printed form; the other columns only format fields
  of the result.
\<close>

record row =
  rank :: nat
  entry :: BenchmarkResult
  speedup :: number
  speedupStr :: string

text \<open>
  What \<^verbatim>\<open>formatResults\<close> prints: the table, the failed benchmarks, the winner of the
  summary, and whether the verification line reads "verified" or "verification failed".
\<close>

record ranking =
  rows :: "row list"
  failed :: "BenchmarkResult list"
  winner :: BenchmarkResult
  verified :: bool

datatype report = NoSuccessfulBenchmarks | NoValidResults | Ranked ranking

definition formatResults :: "BenchmarkResult list \<Rightarrow> report" where
  "formatResults results =
     (let validResults = filter no_error results;
          failedResults = filter (\<lambda>r. \<not> no_error r) results
      in if length validResults = 0 then NoSuccessfulBenchmarks
         else let sortedResults = array_sort (\<lambda>a b. js_sub (time a) (time b)) validResults
              in case sortedResults of
                   [] \<Rightarrow> NoValidResults
                 | fastest # others \<Rightarrow>
                     let uniqueResults = set (map (\<lambda>r. toString (result r)) validResults)
                     in Ranked \<lparr>
                          rows = map (\<lambda>(index, r).
                              let speedup = js_div (time fastest) (time r)
                              in \<lparr>rank = index + 1, entry = r, speedup = speedup,
                                  speedupStr = padStart 7 (toFixed2 speedup @ ''x'')\<rparr>)
                            (enumerate 0 sortedResults),
                          failed = failedResults,
                          winner = fastest,
                          verified = (card uniqueResults = 1)\<rparr>)"

text \<open>Readers of a report, and \<^verbatim>\<open>a <= b\<close> on numbers, for stating the claims.\<close>

fun table :: "report \<Rightarrow> row list" where
  "table (Ranked r) = rows r"
| "table other = []"

fun verification :: "report \<Rightarrow> bool option" where
  "verification (Ranked r) = Some (verified r)"
| "verification other = None"

fun js_le :: "number \<Rightarrow> number \<Rightarrow> bool" where
  "js_le NaN y = False"
| "js_le x NaN = False"
| "js_le NegInf y = True"
| "js_le x PosInf = True"
| "js_le (Fin a) (Fin b) = (a \<le> b)"
| "js_le x y = False"

section \<open>The benchmark runner\<close>

text \<open>
  The world outside the suite is a state of an arbitrary type \<open>'w\<close>; the platform says
  what the suite can read from it and how it changes: the clock \<^verbatim>\<open>performance.now()\<close>
  in milliseconds, \<^verbatim>\<open>process.memoryUsage().heapUsed\<close> in bytes, \<^verbatim>\<open>global.gc\<close> when the
  engine exposes it, \<^verbatim>\<open>os.cpus().length\<close>, what a worker spawned on a range does, the
  depth of the call stack, how the world has changed once a named computation has run
  on a size, and once a \<^verbatim>\<open>setTimeout\<close> pause has passed. Console output is left out.
\<close>

record 'w platform =
  now :: "'w \<Rightarrow> real"
  heapUsed :: "'w \<Rightarrow> real"
  gc :: "('w \<Rightarrow> 'w) option"
  cpus :: nat
  spawn :: "'w \<Rightarrow> int \<Rightarrow> int \<Rightarrow> worker_event list"
  stackFrames :: nat
  computed :: "string \<Rightarrow> real \<Rightarrow> 'w \<Rightarrow> 'w"
  paused :: "real \<Rightarrow> 'w \<Rightarrow> 'w"

text \<open>
  A strategy as the runner calls it, \<^verbatim>\<open>await fn(n)\<close>: from a size and a world it returns
  a value or throws, in a new world; \<open>None\<close> when the call never comes back.
\<close>

type_synonym 'w strategy = "real \<Rightarrow> 'w \<Rightarrow> ((thrown + js_value) \<times> 'w) option"

definition config_warmupRuns :: nat where
  "config_warmupRuns = 3"

definition config_testRuns :: nat where
  "config_testRuns = 5"

definition config_maxNumber :: real where
  "config_maxNumber = 1000000000"

definition getMemoryUsage :: "'w platform \<Rightarrow> 'w \<Rightarrow> real" where
  "getMemoryUsage p w = heapUsed p w / 1024 / 1024"

text \<open>\<^verbatim>\<open>err instanceof Error ? err.message : String(err)\<close>\<close>

fun message :: "thrown \<Rightarrow> string" where
  "message (ErrorObject m) = m"
| "message (OtherValue str) = str"

text \<open>The warm-up loop, with the number of iterations still to run.\<close>

fun warmup :: "'w strategy \<Rightarrow> real \<Rightarrow> nat \<Rightarrow> 'w \<Rightarrow> ((thrown + unit) \<times> 'w) option" where
  "warmup fn warmupSize 0 w = Some (Inr (), w)"
| "warmup fn warmupSize (Suc remaining) w =
     (case fn warmupSize w of
        None \<Rightarrow> None
      | Some (Inl err, w') \<Rightarrow> Some (Inl err, w')
      | Some (Inr discarded, w') \<Rightarrow> warmup fn warmupSize remaining w')"

text \<open>
  The measurement loop, with the number of runs still to make, the array \<^verbatim>\<open>times\<close> so
  far (\<open>timings\<close> here) and the last result.
\<close>

fun measured ::
  "'w platform \<Rightarrow> bool \<Rightarrow> 'w strategy \<Rightarrow> real \<Rightarrow> nat \<Rightarrow> real list \<Rightarrow> js_value \<Rightarrow> 'w
   \<Rightarrow> ((thrown + real list \<times> js_value) \<times> 'w) option" where
  "measured p isDevelopment fn n 0 timings finalResult w = Some (Inr (timings, finalResult), w)"
| "measured p isDevelopment fn n (Suc remaining) timings finalResult w =
     (let w0 = (case gc p of
                  Some collect \<Rightarrow> if \<not> isDevelopment then collect (collect w) else w
                | None \<Rightarrow> w);
          start = now p w0
      in case fn n w0 of
           None \<Rightarrow> None
         | Some (Inl err, w') \<Rightarrow> Some (Inl err, w')
         | Some (Inr v, w') \<Rightarrow>
             let stop = now p w';
                 t = stop - start
             in measured p isDevelopment fn n remaining (timings @ [t]) v w')"

text \<open>
  The \<^verbatim>\<open>try\<close> block of \<^verbatim>\<open>runBenchmark\<close>. \<^verbatim>\<open>times.reduce\<close> without an initial value
  throws a TypeError on an empty array.
\<close>

definition tryBlock ::
  "'w platform \<Rightarrow> bool \<Rightarrow> string \<Rightarrow> 'w strategy \<Rightarrow> real \<Rightarrow> 'w
   \<Rightarrow> ((thrown + BenchmarkResult) \<times> 'w) option" where
  "tryBlock p isDevelopment benchmarkName fn n w =
     (case (if \<not> isDevelopment
            then let warmupSize = min (n / 100) 1000000
                 in warmup fn warmupSize config_warmupRuns w
            else Some (Inr (), w)) of
        None \<Rightarrow> None
      | Some (Inl err, w1) \<Rightarrow> Some (Inl err, w1)
      | Some (Inr u, w1) \<Rightarrow>
          let memoryBefore = getMemoryUsage p w1
          in case measured p isDevelopment fn n config_testRuns [] (Number 0) w1 of
               None \<Rightarrow> None
             | Some (Inl err, w2) \<Rightarrow> Some (Inl err, w2)
             | Some (Inr (timings, finalResult), w2) \<Rightarrow>
                 let memoryAfter = getMemoryUsage p w2
                 in if timings = []
                    then Some (Inl (ErrorObject ''Reduce of empty array with no initial value''), w2)
                    else let avgTime = sum_list timings / real (length timings)
                         in Some (Inr \<lparr>name = benchmarkName, time = Fin avgTime,
                               result = finalResult,
                               memoryUsed = Fin (memoryAfter - memoryBefore),
                               opsPerSecond = js_div (Fin n) (js_div (Fin avgTime) (Fin 1000)),
                               error = None\<rparr>, w2))"

definition runBenchmark ::
  "'w platform \<Rightarrow> bool \<Rightarrow> string \<Rightarrow> 'w strategy \<Rightarrow> real \<Rightarrow> 'w
   \<Rightarrow> (BenchmarkResult \<times> 'w) option" where
  "runBenchmark p isDevelopment benchmarkName fn n w =
     (case tryBlock p isDevelopment benchmarkName fn n w of
        None \<Rightarrow> None
      | Some (Inr r, w') \<Rightarrow> Some (r, w')
      | Some (Inl err, w') \<Rightarrow>
          Some (\<lparr>name = benchmarkName, time = PosInf, result = Number 0,
                 memoryUsed = Fin 0, opsPerSecond = Fin 0,
                 error = Some (message err)\<rparr>, w'))"

section \<open>The suite\<close>

text \<open>
  The strategies of \<^verbatim>\<open>main\<close> as the runner calls them. \<^verbatim>\<open>main\<close> passes only the sizes
  100000000 or 1000000000 and the warm-up size 1000000, all integers; the strategies on
  numbers are the integer models above, applied to the integer a size denotes.
\<close>

definition synchronous ::
  "'w platform \<Rightarrow> string \<Rightarrow> (int \<Rightarrow> (thrown + js_value) option) \<Rightarrow> 'w strategy" where
  "synchronous p benchmarkName f n w =
     (case f \<lfloor>n\<rfloor> of
        None \<Rightarrow> None
      | Some r \<Rightarrow> Some (r, computed p benchmarkName n w))"

definition parallelStrategy :: "'w platform \<Rightarrow> 'w strategy" where
  "parallelStrategy p n w =
     (case parallelWorkers (cpus p) (spawn p w) \<lfloor>n\<rfloor> of
        Pending \<Rightarrow> None
      | Rejected err \<Rightarrow> Some (Inl err, computed p ''Parallel Workers'' n w)
      | Resolved v \<Rightarrow> Some (Inr (Number v), computed p ''Parallel Workers'' n w))"

text \<open>
  The stress test sorts and serialises random numbers, prints, and returns nothing; the
  benchmark entry then returns 0.
\<close>

definition stressStrategy :: "'w platform \<Rightarrow> 'w strategy" where
  "stressStrategy p n w =
     Some (Inr (Number 0), computed p ''Realistic Stress Test'' (min n 10000000) w)"

definition benchmarks :: "'w platform \<Rightarrow> real \<Rightarrow> (string \<times> 'w strategy) list" where
  "benchmarks p testSize =
     [(''Mathematical Formula'',
        synchronous p ''Mathematical Formula'' (\<lambda>n. Some (Inr (Number (mathFormula n))))),
      (''BigInt Math Formula'',
        synchronous p ''BigInt Math Formula'' (\<lambda>n. Some (Inr (BigInt (mathFormulaBigInt n))))),
      (''Assembly Style Loop'',
        synchronous p ''Assembly Style Loop'' (\<lambda>n. map_option (\<lambda>v. Inr (Number v)) (assemblyStyleLoop n))),
      (''SIMD Style Processing'',
        synchronous p ''SIMD Style Processing'' (\<lambda>n. map_option (\<lambda>v. Inr (Number v)) (simdStyle n))),
      (''Optimized Loop'',
        synchronous p ''Optimized Loop'' (\<lambda>n. map_option (\<lambda>v. Inr (Number v)) (optimizedLoop n))),
      (''Cache Friendly'',
        synchronous p ''Cache Friendly'' (\<lambda>n. map_option (\<lambda>v. Inr (Number v)) (cacheFriendly n))),
      (''Typed Array Optimal'',
        synchronous p ''Typed Array Optimal'' (\<lambda>n. map_option (map_sum id Number) (typedArrayOptimal n))),
      (''Parallel Workers'', parallelStrategy p),
      (''Realistic Stress Test'', stressStrategy p)]
     @ (if testSize \<le> 10000
        then [(''Tail Recursive'',
               synchronous p ''Tail Recursive''
                 (\<lambda>n. Some (map_sum id Number (tailRecursive (stackFrames p) n 0 0))))]
        else [])"

text \<open>
  The loop of \<^verbatim>\<open>main\<close> over the benchmarks still to run. \<^verbatim>\<open>runBenchmark\<close> returns a
  record and throws nothing, so the \<^verbatim>\<open>catch\<close> around it is never entered.
\<close>

fun suite ::
  "'w platform \<Rightarrow> bool \<Rightarrow> (string \<times> 'w strategy) list \<Rightarrow> real \<Rightarrow> BenchmarkResult list \<Rightarrow> 'w
   \<Rightarrow> (BenchmarkResult list \<times> 'w) option" where
  "suite p isDevelopment [] testSize results w = Some (results, w)"
| "suite p isDevelopment ((benchmarkName, fn) # rest) testSize results w =
     (case runBenchmark p isDevelopment benchmarkName fn testSize w of
        None \<Rightarrow> None
      | Some (r, w1) \<Rightarrow>
          let w2 = (case gc p of
                      Some collect \<Rightarrow> if \<not> isDevelopment then collect w1 else w1
                    | None \<Rightarrow> w1);
              w3 = paused p (if isDevelopment then 100 else 1000) w2
          in suite p isDevelopment rest testSize (results @ [r]) w3)"

definition main :: "'w platform \<Rightarrow> bool \<Rightarrow> bool \<Rightarrow> 'w \<Rightarrow> (report \<times> 'w) option" where
  "main p isFullTest isDevelopment w =
     (let testSize = (if isFullTest then config_maxNumber else 100000000)
      in case suite p isDevelopment (benchmarks p testSize) testSize [] w of
           None \<Rightarrow> None
         | Some (results, w') \<Rightarrow> Some (formatResults results, w'))"

text \<open>
  For stating what the runner does with a strategy: the strategy \<open>logged fn\<close> behaves as
  \<open>fn\<close> and also writes every call into a log kept beside the world, with the size, the
  world before, the outcome and the world after; \<open>observing p\<close> is the platform \<open>p\<close> on
  such a world.
\<close>

record 'w call =
  arg :: real
  before :: 'w
  outcome :: "thrown + js_value"
  after :: 'w

definition logged :: "'w strategy \<Rightarrow> ('w \<times> 'w call list) strategy" where
  "logged fn n = (\<lambda>(w, calls).
     case fn n w of
       None \<Rightarrow> None
     | Some (r, w') \<Rightarrow> Some (r, (w', calls @ [\<lparr>arg = n, before = w, outcome = r, after = w'\<rparr>])))"

definition observing :: "'w platform \<Rightarrow> ('w \<times> 'l) platform" where
  "observing p =
     \<lparr>now = (\<lambda>(w, calls). now p w),
      heapUsed = (\<lambda>(w, calls). heapUsed p w),
      gc = map_option (\<lambda>collect (w, calls). (collect w, calls)) (gc p),
      cpus = cpus p,
      spawn = (\<lambda>(w, calls). spawn p w),
      stackFrames = stackFrames p,
      computed = (\<lambda>benchmarkName n (w, calls). (computed p benchmarkName n w, calls)),
      paused = (\<lambda>ms (w, calls). (paused p ms w, calls))\<rparr>"

definition elapsed :: "'w platform \<Rightarrow> 'w call \<Rightarrow> real" where
  "elapsed p c = now p (after c) - now p (before c)"

text \<open>
  Words for a stretch of the log: every entry is a call of \<open>fn\<close> as it happened, on the
  size \<open>n\<close>; every call returned a value; the last call threw \<open>e\<close> and the calls before
  it returned.
\<close>

definition calls_of :: "'w strategy \<Rightarrow> real \<Rightarrow> 'w call list \<Rightarrow> bool" where
  "calls_of fn n cs =
     (\<forall>c \<in> set cs. arg c = n \<and> fn (arg c) (before c) = Some (outcome c, after c))"

definition all_returned :: "'w call list \<Rightarrow> bool" where
  "all_returned cs = (\<forall>c \<in> set cs. \<not> isl (outcome c))"

definition stopped_by :: "thrown \<Rightarrow> 'w call list \<Rightarrow> bool" where
  "stopped_by e cs = (cs \<noteq> [] \<and> outcome (last cs) = Inl e \<and> all_returned (butlast cs))"

text \<open>
  A platform to run examples on: the world is the clock in milliseconds, every
  computation takes 2 ms, a pause takes its time, the heap stays empty, the engine does
  not expose \<^verbatim>\<open>global.gc\<close>, four CPUs are reported and no worker is disturbed. On
  \<open>stalled_platform\<close> every worker hangs until the timer of \<^verbatim>\<open>createWorker\<close> fires.
\<close>

definition example_platform :: "real platform" where
  "example_platform =
     \<lparr>now = (\<lambda>w. w), heapUsed = (\<lambda>w. 0), gc = None, cpus = 4,
      spawn = (\<lambda>w. undisturbed), stackFrames = 10000,
      computed = (\<lambda>benchmarkName n w. w + 2), paused = (\<lambda>ms w. w + ms)\<rparr>"


section \<open>Facts about rounding and the loops\<close>

lemma bitlen_2_53: "bitlen 9007199254740992 = 54"
  by (simp add: compute_bitlen)

lemma roundTiesToEven_exact: "\<bar>x\<bar> \<le> 2 ^ 53 \<Longrightarrow> roundTiesToEven x = x"
proof (cases "\<bar>x\<bar> < 2 ^ 53")
  case True
  then show ?thesis by (simp add: roundTiesToEven_def bitlen_le_iff_power)
next
  case False
  assume "\<bar>x\<bar> \<le> 2 ^ 53"
  with False have "x = 2 ^ 53 \<or> x = - (2 ^ 53)" by linarith
  then show ?thesis
  proof
    assume "x = 2 ^ 53"
    then show ?thesis by (simp add: roundTiesToEven_def bitlen_2_53 Let_def)
  next
    assume "x = - (2 ^ 53)"
    then show ?thesis by (simp add: roundTiesToEven_def bitlen_2_53 Let_def)
  qed
qed

lemma num_add_exact: "\<bar>a + b\<bar> \<le> 2 ^ 53 \<Longrightarrow> num_add a b = a + b"
  by (simp add: num_add_def roundTiesToEven_exact)

lemma num_sub_exact: "\<bar>a - b\<bar> \<le> 2 ^ 53 \<Longrightarrow> num_sub a b = a - b"
  by (simp add: num_sub_def roundTiesToEven_exact)

lemma num_mul_exact: "\<bar>a * b\<bar> \<le> 2 ^ 53 \<Longrightarrow> num_mul a b = a * b"
  by (simp add: num_mul_def roundTiesToEven_exact)

lemma sum_int_split: "i < limit \<Longrightarrow> \<Sum>{i..<limit} = i + \<Sum>{i + 1..<limit::int}"
proof -
  assume "i < limit"
  then have "{i..<limit} = insert i {i + 1..<limit}" by auto
  then show ?thesis by simp
qed

lemma sum_int_nonneg: "0 \<le> i \<Longrightarrow> 0 \<le> \<Sum>{i..<limit::int}"
  by (rule sum_nonneg) simp

lemma sum_int_concat:
  "a \<le> b \<Longrightarrow> b \<le> c \<Longrightarrow> \<Sum>{a..<b} + \<Sum>{b..<c} = \<Sum>{a..<c::int}"
  by (simp add: sum.union_disjoint [symmetric] ivl_disj_un)

lemma sum_int_closed: "a \<le> b \<Longrightarrow> 2 * \<Sum>{a..<b::int} = b * (b - 1) - a * (a - 1)"
proof (induction "nat (b - a)" arbitrary: a)
  case 0
  then have "a = b" by simp
  then show ?case by simp
next
  case (Suc k)
  then have lt: "a < b" by linarith
  have "2 * \<Sum>{a + 1..<b} = b * (b - 1) - (a + 1) * (a + 1 - 1)"
    using Suc.hyps lt by (intro Suc.hyps(1)) linarith+
  then show ?case
    using sum_int_split [OF lt] by (simp add: algebra_simps)
qed

lemma gauss_int: "0 \<le> n \<Longrightarrow> \<Sum>{0..<n::int} = n * (n - 1) div 2"
  using sum_int_closed [of 0 n] by simp

lemma sum_below_2_53:
  assumes "0 \<le> n" "n \<le> 2 ^ 27"
  shows "\<Sum>{0..<n::int} < 2 ^ 53"
proof -
  have "n * (n - 1) \<le> 2 ^ 27 * (2 ^ 27 - 1)"
  proof (cases "n = 0")
    case True then show ?thesis by simp
  next
    case False
    with assms show ?thesis by (intro mult_mono) simp_all
  qed
  then have "2 * \<Sum>{0..<n} < 2 * 2 ^ 53"
    using sum_int_closed [of 0 n] assms(1) by simp
  then show ?thesis by simp
qed

lemma sumLoop_exact:
  assumes "0 \<le> i" "0 \<le> s" "s + \<Sum>{i..<limit} < 2 ^ 53"
  shows "sumLoop limit i s = Some (s + \<Sum>{i..<limit})"
  using assms
proof (induction "nat (limit - i)" arbitrary: i s)
  case 0
  then have "\<not> i < limit" by simp
  then show ?case by (subst sumLoop.simps) simp
next
  case (Suc k)
  then have lt: "i < limit" by linarith
  have split: "\<Sum>{i..<limit} = i + \<Sum>{i + 1..<limit}"
    using lt by (rule sum_int_split)
  have nn: "0 \<le> \<Sum>{i + 1..<limit}"
    using Suc.prems(1) by (intro sum_int_nonneg) simp
  have i1: "num_add i 1 = i + 1"
    using Suc.prems split nn by (intro num_add_exact) linarith
  have si: "num_add s i = s + i"
    using Suc.prems split nn by (intro num_add_exact) linarith
  have "sumLoop limit i s = sumLoop limit (num_add i 1) (num_add s i)"
    using lt by (subst sumLoop.simps) simp
  also have "\<dots> = sumLoop limit (i + 1) (s + i)"
    by (simp only: i1 si)
  also have "\<dots> = Some (s + i + \<Sum>{i + 1..<limit})"
    using Suc.hyps Suc.prems split by (intro Suc.hyps(1)) linarith+
  finally show ?case
    using split by simp
qed

lemma optimizedLoop_exact:
  assumes "0 \<le> n" "n \<le> 2 ^ 27"
  shows "optimizedLoop n = Some (n * (n - 1) div 2)"
  using sumLoop_exact [of 0 0 n] sum_below_2_53 [OF assms] assms(1)
  by (simp add: optimizedLoop_def gauss_int)

lemma mathFormula_exact:
  assumes "0 \<le> n" "n \<le> 2 ^ 27"
  shows "mathFormula n = n * (n - 1) div 2"
proof -
  have sub: "num_sub n 1 = n - 1"
    using assms by (intro num_sub_exact) simp
  have "2 * \<Sum>{0..<n} < 2 * 2 ^ 53"
    using sum_below_2_53 [OF assms] by simp
  then have le: "n * (n - 1) < 2 ^ 54"
    using sum_int_closed [of 0 n] assms(1) by simp
  have nonneg: "0 \<le> n * (n - 1)"
    using sum_int_closed [of 0 n] sum_int_nonneg [of 0 n] assms(1) by simp
  have ev: "even (n * (n - 1))" by simp
  have "roundTiesToEven (n * (n - 1)) = n * (n - 1)"
  proof (cases "n * (n - 1) < 2 ^ 53")
    case True
    with nonneg show ?thesis by (intro roundTiesToEven_exact) simp
  next
    case False
    then have ge: "2 ^ 53 \<le> n * (n - 1)" by simp
    have "bitlen (n * (n - 1)) \<le> 54"
      using le by (simp add: bitlen_le_iff_power)
    moreover have "54 \<le> bitlen (n * (n - 1))"
      using ge by (simp add: bitlen_ge_iff_power)
    ultimately have bl: "bitlen \<bar>n * (n - 1)\<bar> = 54"
      using nonneg by simp
    obtain k where k: "n * (n - 1) = 2 * k" using ev by (elim evenE)
    have "0 < k" using ge k by simp
    then show ?thesis
      unfolding roundTiesToEven_def bl using nonneg k
      by (simp add: Let_def sgn_if)
  qed
  then show ?thesis
    by (simp add: mathFormula_def num_mul_def sub)
qed

lemma sum_int_block:
  "2 * \<Sum>{i..<i + k::int} = 2 * k * i + k * (k - 1)" if "0 \<le> k"
  using sum_int_closed [of i "i + k"] that by (simp add: algebra_simps)

lemma unrolled16_exact:
  assumes "0 \<le> i" "16 * i + 120 < 2 ^ 53"
  shows "unrolled16 i = 16 * i + 120"
  using assms by (simp add: unrolled16_def num_add_exact)

lemma assemblyStyle_unrolled_exact:
  assumes "0 \<le> i" "0 \<le> s" "i \<le> limit" "16 dvd (limit - i)" "s + \<Sum>{i..<limit} < 2 ^ 53"
  shows "assemblyStyle_unrolled limit i s = Some (limit, s + \<Sum>{i..<limit})"
  using assms
proof (induction "nat (limit - i)" arbitrary: i s rule: less_induct)
  case less
  show ?case
  proof (cases "i < limit")
    case False
    with less.prems have "i = limit" by simp
    then show ?thesis by (subst assemblyStyle_unrolled.simps) simp
  next
    case True
    from less.prems(4) obtain k where k: "limit - i = 16 * k" by (elim dvdE)
    with True have step: "i + 16 \<le> limit" by presburger
    have block: "\<Sum>{i..<i + 16} = 16 * i + 120"
      using sum_int_block [of 16 i] by simp
    have cat: "\<Sum>{i..<limit} = (16 * i + 120) + \<Sum>{i + 16..<limit}"
      using sum_int_concat [of i "i + 16" limit] step block by simp
    have nn: "0 \<le> \<Sum>{i + 16..<limit}"
      using less.prems(1) by (intro sum_int_nonneg) simp
    have u: "unrolled16 i = 16 * i + 120"
      using less.prems cat nn by (intro unrolled16_exact) linarith+
    have i16: "num_add i 16 = i + 16"
      using less.prems cat nn by (intro num_add_exact) linarith
    have su: "num_add s (16 * i + 120) = s + (16 * i + 120)"
      using less.prems cat nn by (intro num_add_exact) linarith
    have dv: "16 dvd (limit - (i + 16))"
      using less.prems(4) by presburger
    have "assemblyStyle_unrolled limit i s =
          assemblyStyle_unrolled limit (num_add i 16) (num_add s (unrolled16 i))"
      using True by (subst assemblyStyle_unrolled.simps) simp
    also have "\<dots> = assemblyStyle_unrolled limit (i + 16) (s + (16 * i + 120))"
      by (simp only: u i16 su)
    also have "\<dots> = Some (limit, s + (16 * i + 120) + \<Sum>{i + 16..<limit})"
      using less.prems step cat dv by (intro less.hyps) linarith+
    finally show ?thesis
      using cat by simp
  qed
qed

lemma stride_limit:
  assumes "0 \<le> n" "n \<le> 2 ^ 27" "0 < k" "k \<le> 16"
  shows "num_mul (n div k) k = n div k * k" "0 \<le> n div k * k" "n div k * k \<le> n"
proof -
  show le: "n div k * k \<le> n"
    using assms(3) by (metis div_mult_mod_eq le_add_same_cancel1 pos_mod_sign)
  show nn: "0 \<le> n div k * k"
    using assms by (simp add: pos_imp_zdiv_nonneg_iff)
  show "num_mul (n div k) k = n div k * k"
    using le nn assms(2) by (intro num_mul_exact) simp
qed

lemma assemblyStyleLoop_exact:
  assumes "0 \<le> n" "n \<le> 2 ^ 27"
  shows "assemblyStyleLoop n = Some (n * (n - 1) div 2)"
proof -
  define limit where "limit = n div 16 * 16"
  have lim: "num_mul (n div 16) 16 = limit" "0 \<le> limit" "limit \<le> n"
    unfolding limit_def using stride_limit [OF assms, of 16] by simp_all
  have total: "\<Sum>{0..<limit} + \<Sum>{limit..<n} = \<Sum>{0..<n}"
    using lim by (intro sum_int_concat) simp_all
  have bound: "\<Sum>{0..<n} < 2 ^ 53" by (rule sum_below_2_53 [OF assms])
  have nn: "0 \<le> \<Sum>{limit..<n}" "0 \<le> \<Sum>{0..<limit}"
    using lim by (simp_all add: sum_int_nonneg)
  have first: "assemblyStyle_unrolled limit 0 0 = Some (limit, 0 + \<Sum>{0..<limit})"
    using lim total bound nn
    by (intro assemblyStyle_unrolled_exact) (simp_all add: limit_def)
  have rest: "sumLoop n limit (\<Sum>{0..<limit}) = Some (\<Sum>{0..<limit} + \<Sum>{limit..<n})"
    using lim total bound nn by (intro sumLoop_exact) simp_all
  show ?thesis
    using first rest total assms(1)
    by (simp add: assemblyStyleLoop_def lim gauss_int)
qed

lemma simdStyle_vectors_exact:
  assumes "0 \<le> i" "0 \<le> s" "i \<le> limit" "8 dvd (limit - i)" "s + \<Sum>{i..<limit} < 2 ^ 53"
  shows "simdStyle_vectors limit i s = Some (limit, s + \<Sum>{i..<limit})"
  using assms
proof (induction "nat (limit - i)" arbitrary: i s rule: less_induct)
  case less
  show ?case
  proof (cases "i < limit")
    case False
    with less.prems have "i = limit" by simp
    then show ?thesis by (subst simdStyle_vectors.simps) simp
  next
    case True
    from less.prems(4) obtain k where k: "limit - i = 8 * k" by (elim dvdE)
    with True have step: "i + 8 \<le> limit" by presburger
    have block: "\<Sum>{i..<i + 8} = 8 * i + 28"
      using sum_int_block [of 8 i] by simp
    have cat: "\<Sum>{i..<limit} = (8 * i + 28) + \<Sum>{i + 8..<limit}"
      using sum_int_concat [of i "i + 8" limit] step block by simp
    have nn: "0 \<le> \<Sum>{i + 8..<limit}"
      using less.prems(1) by (intro sum_int_nonneg) simp
    have m: "num_mul i 8 = i * 8"
      using less.prems cat nn by (intro num_mul_exact) linarith
    have v: "num_add (i * 8) 28 = 8 * i + 28"
      using less.prems cat nn num_add_exact [of "i * 8" 28] by simp
    have i8: "num_add i 8 = i + 8"
      using less.prems cat nn by (intro num_add_exact) linarith
    have sv: "num_add s (8 * i + 28) = s + (8 * i + 28)"
      using less.prems cat nn by (intro num_add_exact) linarith
    have dv: "8 dvd (limit - (i + 8))"
      using less.prems(4) by presburger
    have "simdStyle_vectors limit i s =
          simdStyle_vectors limit (num_add i 8) (num_add s (num_add (num_mul i 8) 28))"
      using True by (subst simdStyle_vectors.simps) (simp add: Let_def)
    also have "\<dots> = simdStyle_vectors limit (i + 8) (s + (8 * i + 28))"
      by (simp only: m v i8 sv)
    also have "\<dots> = Some (limit, s + (8 * i + 28) + \<Sum>{i + 8..<limit})"
      using less.prems step cat dv by (intro less.hyps) linarith+
    finally show ?thesis
      using cat by simp
  qed
qed

lemma simdStyle_exact:
  assumes "0 \<le> n" "n \<le> 2 ^ 27"
  shows "simdStyle n = Some (n * (n - 1) div 2)"
proof -
  define limit where "limit = n div 8 * 8"
  have lim: "num_mul (n div 8) 8 = limit" "0 \<le> limit" "limit \<le> n"
    unfolding limit_def using stride_limit [OF assms, of 8] by simp_all
  have total: "\<Sum>{0..<limit} + \<Sum>{limit..<n} = \<Sum>{0..<n}"
    using lim by (intro sum_int_concat) simp_all
  have bound: "\<Sum>{0..<n} < 2 ^ 53" by (rule sum_below_2_53 [OF assms])
  have nn: "0 \<le> \<Sum>{limit..<n}" "0 \<le> \<Sum>{0..<limit}"
    using lim by (simp_all add: sum_int_nonneg)
  have first: "simdStyle_vectors limit 0 0 = Some (limit, 0 + \<Sum>{0..<limit})"
    using lim total bound nn
    by (intro simdStyle_vectors_exact) (simp_all add: limit_def)
  have rest: "sumLoop n limit (\<Sum>{0..<limit}) = Some (\<Sum>{0..<limit} + \<Sum>{limit..<n})"
    using lim total bound nn by (intro sumLoop_exact) simp_all
  show ?thesis
    using first rest total assms(1)
    by (simp add: simdStyle_def lim gauss_int)
qed

lemma sum_int_chunk:
  assumes "a \<le> n" "0 \<le> c"
  shows "\<Sum>{a..<min (a + c) n} + \<Sum>{a + c..<n} = \<Sum>{a..<n::int}"
proof (cases "a + c \<le> n")
  case True
  then show ?thesis using assms sum_int_concat [of a "a + c" n] by (simp add: min_def)
next
  case False
  then show ?thesis by (simp add: min_def)
qed

lemma ceil_quotient_bounds:
  assumes "0 < b"
  shows "a \<le> ceil_quotient a b * b" "(ceil_quotient a b - 1) * b < a"
proof -
  define q r where "q = (- a) div b" and "r = (- a) mod b"
  have eq: "q * b + r = - a"
    unfolding q_def r_def by (rule div_mult_mod_eq)
  have r: "0 \<le> r" "r < b"
    unfolding r_def using assms by simp_all
  have c: "ceil_quotient a b = - q"
    by (simp add: ceil_quotient_def q_def)
  show "a \<le> ceil_quotient a b * b"
    unfolding c using eq r by (simp add: algebra_simps)
  show "(ceil_quotient a b - 1) * b < a"
    unfolding c using eq r by (simp add: algebra_simps)
qed

lemma cacheFriendly_chunks_exact:
  assumes "0 \<le> chunk" "0 \<le> s" "0 < chunkSize" "chunkSize \<le> 2 ^ 52" "n \<le> 2 ^ 52"
    "s + \<Sum>{chunk..<n} < 2 ^ 53"
  shows "cacheFriendly_chunks n chunkSize chunk s = Some (s + \<Sum>{chunk..<n})"
  using assms
proof (induction "nat (n - chunk)" arbitrary: chunk s rule: less_induct)
  case less
  show ?case
  proof (cases "chunk < n")
    case False
    then show ?thesis by (subst cacheFriendly_chunks.simps) simp
  next
    case True
    define stop where "stop = min (chunk + chunkSize) n"
    have next_chunk: "num_add chunk chunkSize = chunk + chunkSize"
      using less.prems True by (intro num_add_exact) simp
    have parts: "\<Sum>{chunk..<stop} + \<Sum>{chunk + chunkSize..<n} = \<Sum>{chunk..<n}"
      unfolding stop_def using True less.prems(3) by (intro sum_int_chunk) simp_all
    have nn: "0 \<le> \<Sum>{chunk..<stop}" "0 \<le> \<Sum>{chunk + chunkSize..<n}"
      using less.prems(1,3) by (simp_all add: sum_int_nonneg)
    have inner: "sumLoop stop chunk s = Some (s + \<Sum>{chunk..<stop})"
      using less.prems parts nn by (intro sumLoop_exact) linarith+
    have outer: "cacheFriendly_chunks n chunkSize (chunk + chunkSize) (s + \<Sum>{chunk..<stop}) =
        Some (s + \<Sum>{chunk..<stop} + \<Sum>{chunk + chunkSize..<n})"
      using less.prems True parts nn by (intro less.hyps) linarith+
    have "cacheFriendly_chunks n chunkSize chunk s =
        sumLoop stop chunk s \<bind> cacheFriendly_chunks n chunkSize (chunk + chunkSize)"
      using True by (subst cacheFriendly_chunks.simps) (simp add: next_chunk stop_def)
    then show ?thesis
      using inner outer parts by simp
  qed
qed

lemma cacheFriendly_exact:
  assumes "0 \<le> n" "n \<le> 2 ^ 27"
  shows "cacheFriendly n = Some (n * (n - 1) div 2)"
proof -
  have size: "num_mul 16 1000 = 16000"
    using num_mul_exact [of 16 1000] by simp
  have "cacheFriendly_chunks n 16000 0 0 = Some (0 + \<Sum>{0..<n})"
    using assms sum_below_2_53 [OF assms] by (intro cacheFriendly_chunks_exact) simp_all
  then show ?thesis
    using assms(1) by (simp add: cacheFriendly_def size gauss_int)
qed

lemma typedArray_fill_exact:
  assumes "0 \<le> start" "0 \<le> i" "0 \<le> s" "s + \<Sum>{start + i..<start + currentSize} < 2 ^ 53"
  shows "typedArray_fill currentSize start i s =
         Some (s + \<Sum>{start + i..<start + currentSize})"
  using assms
proof (induction "nat (currentSize - i)" arbitrary: i s)
  case 0
  then have "\<not> i < currentSize" by simp
  then show ?case by (subst typedArray_fill.simps) simp
next
  case (Suc k)
  then have lt: "i < currentSize" by linarith
  have split: "\<Sum>{start + i..<start + currentSize} =
      (start + i) + \<Sum>{start + i + 1..<start + currentSize}"
    using lt by (intro sum_int_split) simp
  have nn: "0 \<le> \<Sum>{start + i + 1..<start + currentSize}"
    using Suc.prems(1,2) by (intro sum_int_nonneg) simp
  have v: "num_add start i = start + i"
    using Suc.prems split nn by (intro num_add_exact) linarith
  have i1: "num_add i 1 = i + 1"
    using Suc.prems split nn by (intro num_add_exact) linarith
  have sv: "num_add s (start + i) = s + (start + i)"
    using Suc.prems split nn by (intro num_add_exact) linarith
  have "typedArray_fill currentSize start i s =
        typedArray_fill currentSize start (num_add i 1) (num_add s (num_add start i))"
    using lt by (subst typedArray_fill.simps) (simp add: Let_def)
  also have "\<dots> = typedArray_fill currentSize start (i + 1) (s + (start + i))"
    by (simp only: v i1 sv)
  also have "\<dots> = Some (s + (start + i) + \<Sum>{start + (i + 1)..<start + currentSize})"
    using Suc.hyps Suc.prems split by (intro Suc.hyps(1)) (simp_all add: add.assoc)
  finally show ?case
    using split by (simp add: add.assoc)
qed

lemma typedArray_batches_exact:
  assumes "0 < batchSize" "batchSize \<le> 2 ^ 52" "n \<le> 2 ^ 52" "batches \<le> 2 ^ 52"
    "n \<le> batches * batchSize" "(batches - 1) * batchSize < n"
    "0 \<le> batch" "0 \<le> s" "batch \<le> batches"
    "s + \<Sum>{batch * batchSize..<n} < 2 ^ 53"
  shows "typedArray_batches n batchSize batches batch s =
         Some (Inr (s + \<Sum>{batch * batchSize..<n}))"
  using assms
proof (induction "nat (batches - batch)" arbitrary: batch s)
  case 0
  then have eq: "batch = batches" by simp
  then have "\<Sum>{batch * batchSize..<n} = 0"
    using "0.prems"(5) by simp
  then show ?case
    using eq by (subst typedArray_batches.simps) simp
next
  case (Suc k)
  then have lt: "batch < batches" by linarith
  define start where "start = batch * batchSize"
  define stop where "stop = min (start + batchSize) n"
  have "batch * batchSize \<le> (batches - 1) * batchSize"
    using lt Suc.prems(1) by (intro mult_right_mono) simp_all
  then have start_lt: "start < n"
    unfolding start_def using Suc.prems(6) by linarith
  have start_nn: "0 \<le> start"
    unfolding start_def using Suc.prems(1,7) by simp
  have m: "num_mul batch batchSize = start"
    unfolding start_def using start_lt start_nn Suc.prems(3)
    by (intro num_mul_exact) (simp add: start_def)
  have a: "num_add start batchSize = start + batchSize"
    using start_lt start_nn Suc.prems(1,2,3) by (intro num_add_exact) simp
  have stop_bounds: "start < stop" "stop \<le> n"
    unfolding stop_def using start_lt Suc.prems(1) by simp_all
  have size: "num_sub stop start = stop - start"
    using stop_bounds start_nn Suc.prems(3) by (intro num_sub_exact) simp
  have b1: "num_add batch 1 = batch + 1"
    using lt Suc.prems(4,7) by (intro num_add_exact) simp
  have parts: "\<Sum>{start..<stop} + \<Sum>{start + batchSize..<n} = \<Sum>{start..<n}"
    unfolding stop_def using start_lt Suc.prems(1) by (intro sum_int_chunk) simp_all
  have nn: "0 \<le> \<Sum>{start..<stop}" "0 \<le> \<Sum>{start + batchSize..<n}"
    using start_nn Suc.prems(1) by (simp_all add: sum_int_nonneg)
  have bound: "s + \<Sum>{start..<n} < 2 ^ 53"
    using Suc.prems(10) by (simp add: start_def)
  have fill: "typedArray_fill (stop - start) start 0 s =
      Some (s + \<Sum>{start + 0..<start + (stop - start)})"
    using start_nn Suc.prems(8) parts nn bound by (intro typedArray_fill_exact) simp_all
  have next_start: "(batch + 1) * batchSize = start + batchSize"
    by (simp add: start_def algebra_simps)
  have rest: "typedArray_batches n batchSize batches (batch + 1) (s + \<Sum>{start..<stop}) =
      Some (Inr (s + \<Sum>{start..<stop} + \<Sum>{(batch + 1) * batchSize..<n}))"
    using Suc.hyps Suc.prems lt parts nn bound
    by (intro Suc.hyps(1)) (simp_all add: next_start)
  have "typedArray_batches n batchSize batches batch s =
      typedArray_fill (stop - start) start 0 s \<bind>
        typedArray_batches n batchSize batches (batch + 1)"
    using lt stop_bounds
    by (subst typedArray_batches.simps) (simp add: m a size b1 Let_def flip: stop_def)
  then show ?case
    using fill rest parts by (simp add: next_start start_def)
qed

lemma typedArrayOptimal_exact:
  assumes "0 \<le> n" "n \<le> 2 ^ 27"
  shows "typedArrayOptimal n = Some (Inr (n * (n - 1) div 2))"
proof (cases "n = 0")
  case True
  then show ?thesis by (simp add: typedArrayOptimal_def)
next
  case False
  with assms have pos: "0 < n" by simp
  define batchSize where "batchSize = min 10000000 n"
  define batches where "batches = ceil_quotient n batchSize"
  have facts: "0 < batchSize \<and> batchSize \<le> 2 ^ 52 \<and> 0 < batches \<and> batches \<le> 2 ^ 52 \<and>
      n \<le> batches * batchSize \<and> (batches - 1) * batchSize < n"
  proof (cases "n \<le> 10000000")
    case True
    then have "batchSize = n" by (simp add: batchSize_def)
    moreover have "(- 1 * n) div n = - 1"
      using pos by (intro nonzero_mult_div_cancel_right) simp
    then have "batches = 1"
      using \<open>batchSize = n\<close> by (simp add: batches_def ceil_quotient_def)
    ultimately show ?thesis using pos assms(2) by simp
  next
    case False
    then have bs: "batchSize = 10000000" by (simp add: batchSize_def)
    have "n \<le> batches * 10000000" "(batches - 1) * 10000000 < n"
      using ceil_quotient_bounds [of 10000000 n] by (simp_all add: batches_def bs)
    then show ?thesis using assms(2) pos unfolding bs by simp
  qed
  have "typedArray_batches n batchSize batches 0 0 = Some (Inr (0 + \<Sum>{0 * batchSize..<n}))"
    using facts assms sum_below_2_53 [OF assms] pos
    by (intro typedArray_batches_exact) simp_all
  moreover have "batchSize \<noteq> 0" using facts by simp
  ultimately show ?thesis
    using assms(1)
    by (simp add: typedArrayOptimal_def gauss_int flip: batchSize_def batches_def)
qed

lemma tailRecursive_exact:
  assumes "0 \<le> current" "0 \<le> s" "s + \<Sum>{current..<n} < 2 ^ 53" "nat (n - current) < frames"
  shows "tailRecursive frames n s current = Inr (s + \<Sum>{current..<n})"
  using assms
proof (induction frames arbitrary: s current)
  case 0
  then show ?case by simp
next
  case (Suc frames)
  show ?case
  proof (cases "n \<le> current")
    case True
    then show ?thesis by simp
  next
    case False
    then have lt: "current < n" by simp
    have split: "\<Sum>{current..<n} = current + \<Sum>{current + 1..<n}"
      using lt by (rule sum_int_split)
    have nn: "0 \<le> \<Sum>{current + 1..<n}"
      using Suc.prems(1) by (intro sum_int_nonneg) simp
    have c1: "num_add current 1 = current + 1"
      using Suc.prems split nn by (intro num_add_exact) linarith
    have sc: "num_add s current = s + current"
      using Suc.prems split nn by (intro num_add_exact) linarith
    have "tailRecursive frames n (s + current) (current + 1) =
        Inr (s + current + \<Sum>{current + 1..<n})"
      using Suc.prems split lt by (intro Suc.IH) linarith+
    then show ?thesis
      using False split by (simp add: c1 sc)
  qed
qed

lemma roundTiesToEven_large:
  assumes "2 ^ 53 \<le> x"
  shows "2 ^ 53 \<le> roundTiesToEven x"
proof (cases "bitlen \<bar>x\<bar> \<le> 53")
  case True
  then show ?thesis using assms by (simp add: roundTiesToEven_def)
next
  case False
  define e where "e = nat (bitlen \<bar>x\<bar> - 53)"
  have pos: "0 < x" using assms by (simp add: order.strict_trans2 [OF _ assms])
  have e: "0 < e" using False by (simp add: e_def)
  have "bitlen x = 53 + int e" using False pos by (simp add: e_def)
  then have "2 ^ (52 + e) \<le> x"
    using bitlen_ge_iff_power [of "53 + int e" x] by (simp add: nat_add_distrib)
  then have "2 ^ 52 * 2 ^ e \<le> x" by (simp add: power_add)
  then have "(2 ^ 52 * 2 ^ e) div 2 ^ e \<le> x div 2 ^ e"
    by (intro zdiv_mono1) simp_all
  then have q: "2 ^ 52 \<le> x div 2 ^ e" by simp
  define q' where "q' = (if 2 ^ (e - 1) < x mod 2 ^ e \<or> (x mod 2 ^ e = 2 ^ (e - 1) \<and> odd (x div 2 ^ e))
      then x div 2 ^ e + 1 else x div 2 ^ e)"
  have q': "2 ^ 52 \<le> q'" using q by (simp add: q'_def)
  have r: "roundTiesToEven x = q' * 2 ^ e"
    using False pos unfolding q'_def e_def roundTiesToEven_def by (simp add: Let_def)
  have "(2::int) ^ 52 * 2 ^ 1 \<le> q' * 2 ^ e"
    using q' e by (intro mult_mono) (simp_all add: self_le_power)
  then show ?thesis by (simp add: r)
qed

lemma roundTiesToEven_compare:
  assumes "n \<le> 2 ^ 53" "0 \<le> x"
  shows "n \<le> roundTiesToEven x \<longleftrightarrow> n \<le> x" "min (roundTiesToEven x) n = min x n"
proof -
  have "(n \<le> roundTiesToEven x \<longleftrightarrow> n \<le> x) \<and> min (roundTiesToEven x) n = min x n"
  proof (cases "x \<le> 2 ^ 53")
    case True
    with assms(2) show ?thesis by (simp add: roundTiesToEven_exact)
  next
    case False
    then have "2 ^ 53 \<le> roundTiesToEven x" by (intro roundTiesToEven_large) simp
    with False assms(1) show ?thesis by simp
  qed
  then show "n \<le> roundTiesToEven x \<longleftrightarrow> n \<le> x" "min (roundTiesToEven x) n = min x n"
    by simp_all
qed

lemma workRanges_from_unfold:
  assumes "0 < c" "n \<le> 2 ^ 53" "n \<le> int P * c"
  shows "workRanges_from n c P i =
     (if int i * c < n
      then (int i * c, min (int i * c + c) n) # workRanges_from n c P (Suc i)
      else [])"
proof (cases "i < P")
  case False
  then have "int P * c \<le> int i * c"
    using assms(1) by (intro mult_right_mono) simp_all
  with assms(3) have "\<not> int i * c < n" by simp
  with False show ?thesis by (subst workRanges_from.simps) simp
next
  case True
  have nn: "0 \<le> int i * c" using assms(1) by simp
  have cmp: "n \<le> num_mul (int i) c \<longleftrightarrow> n \<le> int i * c"
    unfolding num_mul_def using assms(2) nn by (rule roundTiesToEven_compare)
  show ?thesis
  proof (cases "int i * c < n")
    case False
    with True cmp show ?thesis by (subst workRanges_from.simps) (simp add: Let_def)
  next
    case lt: True
    have start: "num_mul (int i) c = int i * c"
      using lt nn assms(2) by (intro num_mul_exact) simp
    have stop: "min (num_add (int i * c) c) n = min (int i * c + c) n"
      unfolding num_add_def using assms(1,2) nn by (intro roundTiesToEven_compare) simp_all
    show ?thesis
      using True lt by (subst workRanges_from.simps) (simp add: Let_def start stop)
  qed
qed

lemma workRanges_from_tiles:
  assumes "0 < c" "n \<le> 2 ^ 53" "n \<le> int P * c"
  shows "tiles (min (int i * c) n) (workRanges_from n c P i) n"
proof (induction "nat (n - int i * c)" arbitrary: i rule: less_induct)
  case less
  show ?case
  proof (cases "int i * c < n")
    case False
    then show ?thesis
      by (subst workRanges_from_unfold [OF assms]) (simp add: min_def)
  next
    case True
    have next_start: "int (Suc i) * c = int i * c + c" by (simp add: algebra_simps)
    have "tiles (min (int (Suc i) * c) n) (workRanges_from n c P (Suc i)) n"
      using True assms(1) by (intro less.hyps) (simp add: algebra_simps)
    then have "tiles (min (int i * c + c) n) (workRanges_from n c P (Suc i)) n"
      by (simp only: next_start)
    then show ?thesis
      using True assms(1)
      by (subst workRanges_from_unfold [OF assms]) (simp add: min_def)
  qed
qed

lemma workRanges_from_lengths:
  assumes "0 < c" "n \<le> 2 ^ 53" "n \<le> int P * c"
  shows "(\<forall>(start, stop) \<in> set (workRanges_from n c P i). 0 < stop - start \<and> stop - start \<le> c) \<and>
         (\<forall>(start, stop) \<in> set (butlast (workRanges_from n c P i)). stop - start = c)"
proof (induction "nat (n - int i * c)" arbitrary: i rule: less_induct)
  case less
  show ?case
  proof (cases "int i * c < n")
    case False
    then show ?thesis
      by (subst (1 2) workRanges_from_unfold [OF assms]) simp
  next
    case True
    have next_start: "int (Suc i) * c = int i * c + c" by (simp add: algebra_simps)
    have IH: "(\<forall>(start, stop) \<in> set (workRanges_from n c P (Suc i)). 0 < stop - start \<and> stop - start \<le> c) \<and>
         (\<forall>(start, stop) \<in> set (butlast (workRanges_from n c P (Suc i))). stop - start = c)"
      using True assms(1) by (intro less.hyps) (simp add: algebra_simps)
    have more: "workRanges_from n c P (Suc i) \<noteq> [] \<Longrightarrow> int i * c + c < n"
      by (subst (asm) workRanges_from_unfold [OF assms]) (simp add: algebra_simps split: if_splits)
    show ?thesis
      using True assms(1) IH more
      by (subst (1 2) workRanges_from_unfold [OF assms]) (auto simp: min_def)
  qed
qed

lemma tiles_le: "tiles a rs b \<Longrightarrow> a \<le> b"
proof (induction rs arbitrary: a)
  case Nil
  then show ?case by simp
next
  case (Cons r rs)
  obtain start stop where r: "r = (start, stop)" by (cases r)
  with Cons.prems have "a < stop" "tiles stop rs b" by simp_all
  with Cons.IH [of stop] show ?case by simp
qed

lemma tiles_union: "tiles a rs b \<Longrightarrow> (\<Union>(start, stop) \<in> set rs. {start..<stop}) = {a..<b}"
proof (induction rs arbitrary: a)
  case Nil
  then show ?case by simp
next
  case (Cons r rs)
  obtain start stop where r: "r = (start, stop)" by (cases r)
  with Cons.prems have t: "start = a" "a < stop" "tiles stop rs b" by simp_all
  have "stop \<le> b" using t(3) by (rule tiles_le)
  then have "{a..<stop} \<union> {stop..<b} = {a..<b}" using t(2) by auto
  then show ?case using Cons.IH [OF t(3)] r t(1) by simp
qed

lemma tiles_within: "tiles a rs b \<Longrightarrow> (start, stop) \<in> set rs \<Longrightarrow> a \<le> start \<and> start < stop \<and> stop \<le> b"
proof (induction rs arbitrary: a)
  case Nil
  then show ?case by simp
next
  case (Cons r rs)
  obtain s e where r: "r = (s, e)" by (cases r)
  with Cons.prems have t: "s = a" "a < e" "tiles e rs b" by simp_all
  show ?case
  proof (cases "(start, stop) = r")
    case True
    then show ?thesis using r t tiles_le [OF t(3)] by simp
  next
    case False
    then have "(start, stop) \<in> set rs" using Cons.prems(2) by simp
    from Cons.IH [OF t(3) this] show ?thesis using t(2) by simp
  qed
qed

lemma tiles_contiguous:
  "tiles a rs b \<Longrightarrow> Suc j < length rs \<Longrightarrow> snd (rs ! j) = fst (rs ! Suc j)"
proof (induction rs arbitrary: a j)
  case Nil
  then show ?case by simp
next
  case (Cons r rs)
  obtain s e where r: "r = (s, e)" by (cases r)
  with Cons.prems have t: "tiles e rs b" by simp
  show ?case
  proof (cases j)
    case 0
    with Cons.prems(2) obtain r' rs' where rs: "rs = r' # rs'" by (cases rs) auto
    obtain s' e' where r': "r' = (s', e')" by (cases r')
    from t rs r' have "s' = e" by simp
    then show ?thesis using 0 r rs r' by simp
  next
    case (Suc k)
    then show ?thesis using Cons.IH [OF t, of k] Cons.prems(2) by simp
  qed
qed

lemma tiles_ordered:
  "tiles a rs b \<Longrightarrow> j < k \<Longrightarrow> k < length rs \<Longrightarrow> snd (rs ! j) \<le> fst (rs ! k)"
proof (induction rs arbitrary: a j k)
  case Nil
  then show ?case by simp
next
  case (Cons r rs)
  obtain s e where r: "r = (s, e)" by (cases r)
  with Cons.prems have t: "tiles e rs b" by simp
  from Cons.prems(2) obtain k' where k: "k = Suc k'" by (cases k) auto
  show ?case
  proof (cases j)
    case 0
    have "rs ! k' \<in> set rs" using Cons.prems(3) k by simp
    then have "(fst (rs ! k'), snd (rs ! k')) \<in> set rs" by simp
    from tiles_within [OF t this] show ?thesis using 0 k r by simp
  next
    case (Suc j')
    then show ?thesis using Cons.IH [OF t, of j' k'] Cons.prems(2,3) k by simp
  qed
qed

lemma worker_exact:
  assumes "0 \<le> start" "\<Sum>{start..<stop} < 2 ^ 53"
  shows "worker start stop = Some (\<Sum>{start..<stop})"
  using sumLoop_exact [of start 0 stop] assms by (simp add: worker_def)

lemma createWorker_undisturbed:
  assumes "0 \<le> start" "\<Sum>{start..<stop} < 2 ^ 53"
  shows "createWorker undisturbed start stop = Resolved (\<Sum>{start..<stop})"
  by (simp add: createWorker_def undisturbed_def worker_exact [OF assms])

lemma promise_all_resolved:
  "promise_all (map (\<lambda>r. Resolved (f r)) rs) = Resolved (map f rs)"
proof -
  have "first_rejection (map (\<lambda>r. Resolved (f r)) rs) = None"
    by (induction rs) simp_all
  moreover have "resolved_values (map (\<lambda>r. Resolved (f r)) rs) = Some (map f rs)"
    by (induction rs) simp_all
  ultimately show ?thesis by (simp add: promise_all_def)
qed

lemma tiles_workers:
  assumes "tiles a rs b" "0 \<le> a" "\<Sum>{a..<b} < 2 ^ 53"
  shows "map (\<lambda>(start, stop). createWorker undisturbed start stop) rs =
         map (\<lambda>(start, stop). Resolved (\<Sum>{start..<stop})) rs"
proof (rule map_cong [OF refl])
  fix r assume r: "r \<in> set rs"
  obtain start stop where eq: "r = (start, stop)" by (cases r)
  from tiles_within [OF assms(1)] r eq
  have w: "a \<le> start" "start < stop" "stop \<le> b" by simp_all
  have "\<Sum>{a..<start} + \<Sum>{start..<stop} + \<Sum>{stop..<b} = \<Sum>{a..<b}"
    using w by (simp add: sum_int_concat)
  moreover have "0 \<le> \<Sum>{a..<start}" "0 \<le> \<Sum>{stop..<b}"
    using assms(2) w by (simp_all add: sum_int_nonneg)
  ultimately have "\<Sum>{start..<stop} < 2 ^ 53" using assms(3) by linarith
  then show "(case r of (start, stop) \<Rightarrow> createWorker undisturbed start stop) =
             (case r of (start, stop) \<Rightarrow> Resolved (\<Sum>{start..<stop}))"
    using w assms(2) by (simp add: eq createWorker_undisturbed)
qed

lemma tiles_reduce:
  assumes "tiles a rs b" "0 \<le> a" "0 \<le> s" "s + \<Sum>{a..<b} < 2 ^ 53"
  shows "foldl num_add s (map (\<lambda>(start, stop). \<Sum>{start..<stop}) rs) = s + \<Sum>{a..<b}"
  using assms
proof (induction rs arbitrary: a s)
  case Nil
  then show ?case by simp
next
  case (Cons r rs)
  obtain start stop where r: "r = (start, stop)" by (cases r)
  with Cons.prems have t: "start = a" "a < stop" "tiles stop rs b" by simp_all
  have le: "stop \<le> b" using t(3) by (rule tiles_le)
  have cat: "\<Sum>{a..<stop} + \<Sum>{stop..<b} = \<Sum>{a..<b}"
    using t(2) le by (intro sum_int_concat) simp_all
  have nn: "0 \<le> \<Sum>{a..<stop}" "0 \<le> \<Sum>{stop..<b}"
    using Cons.prems(2) t(2) by (simp_all add: sum_int_nonneg)
  have add: "num_add s (\<Sum>{a..<stop}) = s + \<Sum>{a..<stop}"
    using Cons.prems(3,4) cat nn by (intro num_add_exact) linarith
  have "foldl num_add (s + \<Sum>{a..<stop}) (map (\<lambda>(start, stop). \<Sum>{start..<stop}) rs) =
        s + \<Sum>{a..<stop} + \<Sum>{stop..<b}"
    using t Cons.prems cat nn by (intro Cons.IH) linarith+
  then show ?case
    using cat by (simp add: r t(1) add)
qed

lemma ceil_quotient_pos:
  assumes "0 < n" "0 < b"
  shows "0 < ceil_quotient n b"
proof (rule ccontr)
  assume "\<not> 0 < ceil_quotient n b"
  then have "ceil_quotient n b * b \<le> 0 * b"
    using assms(2) by (intro mult_right_mono) simp_all
  with ceil_quotient_bounds(1) [OF assms(2), of n] assms(1) show False by simp
qed

lemma workRanges_zero: "0 < P \<Longrightarrow> workRanges P 0 = []"
  by (simp add: workRanges_def workRanges_from.simps [of _ _ _ 0] num_mul_def
      roundTiesToEven_def)

lemma workRanges_tiles:
  assumes "0 < P" "0 \<le> n" "n \<le> 2 ^ 53"
  shows "tiles 0 (workRanges P n) n"
proof (cases "n = 0")
  case True
  then show ?thesis using assms(1) by (simp add: workRanges_zero)
next
  case False
  with assms(2) have pos: "0 < n" by simp
  have c: "0 < ceil_quotient n (int P)"
    using pos assms(1) by (intro ceil_quotient_pos) simp_all
  have cover: "n \<le> int P * ceil_quotient n (int P)"
    using ceil_quotient_bounds(1) [of "int P" n] assms(1) by (simp add: mult.commute)
  from workRanges_from_tiles [OF c assms(3) cover, of 0]
  show ?thesis using assms(2) by (simp add: workRanges_def)
qed

lemma parallelWorkers_exact:
  assumes "0 < P" "0 \<le> n" "n \<le> 2 ^ 27"
  shows "parallelWorkers P undisturbed n = Resolved (n * (n - 1) div 2)"
proof -
  have t: "tiles 0 (workRanges P n) n"
    using assms by (intro workRanges_tiles) simp_all
  have bound: "\<Sum>{0..<n} < 2 ^ 53" using assms(2,3) by (rule sum_below_2_53)
  have ps: "map (\<lambda>(start, stop). createWorker undisturbed start stop) (workRanges P n) =
        map (\<lambda>r. Resolved ((\<lambda>(start, stop). \<Sum>{start..<stop}) r)) (workRanges P n)"
    using tiles_workers [OF t _ bound] by (simp add: case_prod_beta)
  have "foldl num_add 0 (map (\<lambda>(start, stop). \<Sum>{start..<stop}) (workRanges P n)) = 0 + \<Sum>{0..<n}"
    using t bound by (intro tiles_reduce) simp_all
  then show ?thesis
    using assms(2) unfolding parallelWorkers_def Let_def ps promise_all_resolved
    by (simp add: gauss_int)
qed

lemma workRanges_4_10: "workRanges 4 10 = [(0, 3), (3, 6), (6, 9), (9, 10)]"
  by code_simp

lemma roundTiesToEven_cases: "roundTiesToEven x = x \<or> even (roundTiesToEven x)"
proof (cases "bitlen \<bar>x\<bar> \<le> 53")
  case True
  then show ?thesis by (simp add: roundTiesToEven_def)
next
  case False
  then have "0 < nat (bitlen \<bar>x\<bar> - 53)" by simp
  then have "even ((2::int) ^ nat (bitlen \<bar>x\<bar> - 53))" by simp
  then show ?thesis
    using False by (simp add: roundTiesToEven_def Let_def)
qed

lemma mathFormula_dividend_even: "even (num_mul n (num_sub n 1))"
proof -
  have "even (n * num_sub n 1)"
    using roundTiesToEven_cases [of "n - 1"] by (auto simp: num_sub_def)
  then show ?thesis
    using roundTiesToEven_cases [of "n * num_sub n 1"] by (auto simp: num_mul_def)
qed

section \<open>Facts about sorting and the report\<close>

lemma length_insert_sorted: "length (insert_sorted c a bs) = Suc (length bs)"
  by (induction bs) simp_all

lemma length_array_sort: "length (array_sort c xs) = length xs"
  by (induction xs) (simp_all add: array_sort_def length_insert_sorted)

lemma mset_insert_sorted: "mset (insert_sorted c a bs) = add_mset a (mset bs)"
  by (induction bs) simp_all

lemma mset_array_sort: "mset (array_sort c xs) = mset xs"
  by (induction xs) (simp_all add: array_sort_def mset_insert_sorted)

lemma set_array_sort: "set (array_sort c xs) = set xs"
  using mset_array_sort [of c xs] by (metis set_mset_mset)

lemma positive_js_sub: "x \<noteq> NaN \<Longrightarrow> y \<noteq> NaN \<Longrightarrow> positive (js_sub x y) \<longleftrightarrow> \<not> js_le x y"
  by (cases x; cases y) auto

lemma js_le_total: "x \<noteq> NaN \<Longrightarrow> y \<noteq> NaN \<Longrightarrow> js_le x y \<or> js_le y x"
  by (cases x; cases y) auto

lemma js_le_trans: "js_le x y \<Longrightarrow> js_le y z \<Longrightarrow> js_le x z"
  by (cases x; cases y; cases z) auto

lemma sorted_insert_sorted:
  assumes "time a \<noteq> NaN" "\<forall>b \<in> set bs. time b \<noteq> NaN"
    "sorted_wrt (\<lambda>x y. js_le (time x) (time y)) bs"
  shows "sorted_wrt (\<lambda>x y. js_le (time x) (time y))
           (insert_sorted (\<lambda>x y. js_sub (time x) (time y)) a bs)"
  using assms
proof (induction bs)
  case Nil
  then show ?case by simp
next
  case (Cons b bs)
  let ?c = "\<lambda>x y. js_sub (time x) (time y)"
  show ?case
  proof (cases "positive (?c a b)")
    case True
    then have "\<not> js_le (time a) (time b)"
      using Cons.prems by (simp add: positive_js_sub)
    then have ba: "js_le (time b) (time a)"
      using js_le_total [of "time a" "time b"] Cons.prems by auto
    have "set (insert_sorted ?c a bs) = insert a (set bs)"
      using mset_insert_sorted [of ?c a bs] by (metis set_mset_add_mset_insert set_mset_mset)
    then show ?thesis
      using True ba Cons by auto
  next
    case False
    then have ab: "js_le (time a) (time b)"
      using Cons.prems by (simp add: positive_js_sub)
    then have "\<forall>x \<in> set bs. js_le (time a) (time x)"
      using Cons.prems(3) by (auto intro: js_le_trans)
    then show ?thesis
      using False ab Cons.prems(3) by simp
  qed
qed

lemma sorted_array_sort:
  assumes "\<forall>b \<in> set xs. time b \<noteq> NaN"
  shows "sorted_wrt (\<lambda>x y. js_le (time x) (time y))
           (array_sort (\<lambda>x y. js_sub (time x) (time y)) xs)"
  using assms
proof (induction xs)
  case Nil
  then show ?case by (simp add: array_sort_def)
next
  case (Cons a xs)
  have "sorted_wrt (\<lambda>x y. js_le (time x) (time y))
          (insert_sorted (\<lambda>x y. js_sub (time x) (time y)) a
             (array_sort (\<lambda>x y. js_sub (time x) (time y)) xs))"
    using Cons by (intro sorted_insert_sorted) (simp_all add: set_array_sort)
  then show ?case by (simp add: array_sort_def)
qed

lemma formatResults_ranked:
  assumes "filter no_error results \<noteq> []"
  obtains first others where
    "array_sort (\<lambda>a b. js_sub (time a) (time b)) (filter no_error results) = first # others"
    "formatResults results = Ranked \<lparr>
       rows = map (\<lambda>(index, r).
           \<lparr>rank = index + 1, entry = r, speedup = js_div (time first) (time r),
            speedupStr = padStart 7 (toFixed2 (js_div (time first) (time r)) @ ''x'')\<rparr>)
         (enumerate 0 (first # others)),
       failed = filter (\<lambda>r. \<not> no_error r) results,
       winner = first,
       verified = (card (set (map (\<lambda>r. toString (result r)) (filter no_error results))) = 1)\<rparr>"
proof -
  let ?s = "array_sort (\<lambda>a b. js_sub (time a) (time b)) (filter no_error results)"
  have "length ?s \<noteq> 0" using assms by (simp add: length_array_sort)
  then obtain first others where s: "?s = first # others" by (cases ?s) auto
  show thesis
    by (rule that [OF s]) (simp add: formatResults_def Let_def assms s)
qed

lemma map_entry_rows:
  "map entry (map (\<lambda>(index, r). \<lparr>rank = index + 1, entry = r, speedup = f r, speedupStr = g r\<rparr>)
     (enumerate k xs)) = xs"
  by (induction xs arbitrary: k) simp_all

lemma rows_speedup:
  "row \<in> set (map (\<lambda>(index, r). \<lparr>rank = index + 1, entry = r, speedup = f r, speedupStr = g r\<rparr>)
     (enumerate k xs)) \<Longrightarrow> speedup row = f (entry row)"
  by (induction xs arbitrary: k) auto

section \<open>Facts about the runner and the suite\<close>

lemma numerals_as_Suc: "config_warmupRuns = Suc (Suc (Suc 0))"
  "config_testRuns = Suc (Suc (Suc (Suc (Suc 0))))"
  by (simp_all add: config_warmupRuns_def config_testRuns_def)

lemma observing_simps [simp]:
  "now (observing p) (w, cs) = now p w"
  "heapUsed (observing p) (w, cs) = heapUsed p w"
  "gc (observing p) = map_option (\<lambda>collect (w, calls). (collect w, calls)) (gc p)"
  "cpus (observing p) = cpus p"
  "getMemoryUsage (observing p) (w, cs) = getMemoryUsage p w"
  by (simp_all add: observing_def getMemoryUsage_def)

lemma logged_apply:
  "logged fn n (w, cs) =
     (case fn n w of
        None \<Rightarrow> None
      | Some (r, w') \<Rightarrow> Some (r, (w', cs @ [\<lparr>arg = n, before = w, outcome = r, after = w'\<rparr>])))"
  by (simp add: logged_def)

lemma calls_of_Nil [simp]: "calls_of fn n []"
  by (simp add: calls_of_def)

lemma calls_of_Cons:
  "calls_of fn n (c # cs) \<longleftrightarrow>
   arg c = n \<and> fn (arg c) (before c) = Some (outcome c, after c) \<and> calls_of fn n cs"
  by (auto simp: calls_of_def)

lemma all_returned_Nil [simp]: "all_returned []"
  by (simp add: all_returned_def)

lemma all_returned_Cons: "all_returned (c # cs) \<longleftrightarrow> \<not> isl (outcome c) \<and> all_returned cs"
  by (auto simp: all_returned_def)

lemma stopped_by_Cons:
  "stopped_by e (c # cs) \<longleftrightarrow>
   (if cs = [] then outcome c = Inl e else \<not> isl (outcome c) \<and> stopped_by e cs)"
  by (auto simp: stopped_by_def all_returned_def)

lemma warmup_logged:
  assumes "warmup (logged fn) ws k (w, cs) = Some (res, (w', cs'))"
  shows "\<exists>new. cs' = cs @ new \<and> calls_of fn ws new \<and>
     (case res of Inr u \<Rightarrow> length new = k \<and> all_returned new | Inl e \<Rightarrow> stopped_by e new)"
  using assms
proof (induction k arbitrary: w cs)
  case 0
  then show ?case by auto
next
  case (Suc k)
  show ?case
  proof (cases "fn ws w")
    case None
    with Suc.prems show ?thesis by (simp add: logged_apply)
  next
    case (Some a)
    obtain r w1 where a: "a = (r, w1)" by (cases a)
    define c where "c = \<lparr>arg = ws, before = w, outcome = r, after = w1\<rparr>"
    have c: "arg c = ws" "fn (arg c) (before c) = Some (outcome c, after c)" "outcome c = r"
      by (simp_all add: c_def Some a)
    show ?thesis
    proof (cases r)
      case (Inl e)
      with Suc.prems Some a
      have "res = Inl e" "cs' = cs @ [c]"
        by (auto simp: logged_apply c_def)
      then show ?thesis
        using c Inl by (intro exI [of _ "[c]"]) (simp add: calls_of_Cons stopped_by_Cons)
    next
      case (Inr v)
      with Suc.prems Some a
      have "warmup (logged fn) ws k (w1, cs @ [c]) = Some (res, (w', cs'))"
        by (auto simp: logged_apply c_def)
      from Suc.IH [OF this] obtain new where
        new: "cs' = (cs @ [c]) @ new" "calls_of fn ws new"
          "case res of Inr u \<Rightarrow> length new = k \<and> all_returned new | Inl e \<Rightarrow> stopped_by e new"
        by blast
      show ?thesis
        using new c Inr
        by (intro exI [of _ "c # new"])
          (auto simp: calls_of_Cons all_returned_Cons stopped_by_Cons stopped_by_def
            split: sum.splits)
    qed
  qed
qed

lemma all_returned_append:
  "all_returned (xs @ ys) \<longleftrightarrow> all_returned xs \<and> all_returned ys"
  by (auto simp: all_returned_def)

lemma calls_of_set:
  "calls_of fn n cs \<Longrightarrow> c \<in> set cs \<Longrightarrow> fn (arg c) (before c) = Some (outcome c, after c)"
  by (auto simp: calls_of_def)

lemma calls_of_args: "calls_of fn n cs \<Longrightarrow> map arg cs = replicate (length cs) n"
  by (induction cs) (simp_all add: calls_of_Cons)

lemma stopped_by_append:
  "all_returned xs \<Longrightarrow> stopped_by e ys \<Longrightarrow> stopped_by e (xs @ ys)"
  by (auto simp: stopped_by_def all_returned_def butlast_append)


lemma measured_logged:
  assumes "measured (observing p) dev (logged fn) n k ts final (w, cs) = Some (res, (w', cs'))"
  shows "\<exists>new. cs' = cs @ new \<and> calls_of fn n new \<and>
     (case res of
        Inr (ts', final') \<Rightarrow> length new = k \<and> all_returned new \<and>
          ts' = ts @ map (elapsed p) new \<and>
          Inr final' = (if new = [] then Inr final else outcome (last new))
      | Inl e \<Rightarrow> stopped_by e new)"
  using assms
proof (induction k arbitrary: w cs ts final)
  case 0
  then show ?case by auto
next
  case (Suc k)
  define w0 where "w0 = (case gc p of
      Some collect \<Rightarrow> if \<not> dev then collect (collect w) else w | None \<Rightarrow> w)"
  have unfold: "measured (observing p) dev (logged fn) n (Suc k) ts final (w, cs) =
      (case logged fn n (w0, cs) of
         None \<Rightarrow> None
       | Some (Inl err, s') \<Rightarrow> Some (Inl err, s')
       | Some (Inr v, s') \<Rightarrow>
           measured (observing p) dev (logged fn) n k
             (ts @ [now (observing p) s' - now p w0]) v s')"
    by (cases "gc p") (auto simp: w0_def Let_def split: option.split sum.split prod.split)
  from Suc.prems have run: "(case logged fn n (w0, cs) of
         None \<Rightarrow> None
       | Some (Inl err, s') \<Rightarrow> Some (Inl err, s')
       | Some (Inr v, s') \<Rightarrow>
           measured (observing p) dev (logged fn) n k
             (ts @ [now (observing p) s' - now p w0]) v s') = Some (res, (w', cs'))"
    by (simp only: unfold)
  show ?case
  proof (cases "fn n w0")
    case None
    with run show ?thesis by (simp add: logged_apply)
  next
    case (Some a)
    obtain r w1 where a: "a = (r, w1)" by (cases a)
    define c where "c = \<lparr>arg = n, before = w0, outcome = r, after = w1\<rparr>"
    have c: "arg c = n" "fn (arg c) (before c) = Some (outcome c, after c)" "outcome c = r"
      "elapsed p c = now p w1 - now p w0"
      by (simp_all add: c_def Some a elapsed_def)
    show ?thesis
    proof (cases r)
      case (Inl e)
      with run Some a
      have "res = Inl e" "cs' = cs @ [c]"
        by (auto simp: logged_apply c_def)
      then show ?thesis
        using c Inl by (intro exI [of _ "[c]"]) (simp add: calls_of_Cons stopped_by_Cons)
    next
      case (Inr v)
      with run Some a
      have "measured (observing p) dev (logged fn) n k (ts @ [now p w1 - now p w0]) v
          (w1, cs @ [c]) = Some (res, (w', cs'))"
        by (auto simp: logged_apply c_def)
      from Suc.IH [OF this] obtain new where
        new: "cs' = (cs @ [c]) @ new" "calls_of fn n new"
          "case res of
             Inr (ts', final') \<Rightarrow> length new = k \<and> all_returned new \<and>
               ts' = (ts @ [now p w1 - now p w0]) @ map (elapsed p) new \<and>
               Inr final' = (if new = [] then Inr v else outcome (last new))
           | Inl e \<Rightarrow> stopped_by e new"
        by blast
      show ?thesis
        using new c Inr
        by (intro exI [of _ "c # new"])
          (auto simp: calls_of_Cons all_returned_Cons stopped_by_Cons stopped_by_def
            split: sum.splits)
    qed
  qed
qed

lemma tryBlock_logged:
  assumes "tryBlock (observing p) dev nm (logged fn) n (w, []) = Some (res, (w', cs))"
  shows "(\<forall>c \<in> set cs. fn (arg c) (before c) = Some (outcome c, after c)) \<and>
    (case res of
       Inl e \<Rightarrow> stopped_by e cs
     | Inr r \<Rightarrow> (\<exists>warm meas. cs = warm @ meas \<and> all_returned cs \<and>
         length warm = (if dev then 0 else config_warmupRuns) \<and>
         calls_of fn (min (n / 100) 1000000) warm \<and>
         length meas = config_testRuns \<and> calls_of fn n meas \<and>
         r = \<lparr>name = nm,
              time = Fin (sum_list (map (elapsed p) meas) / real config_testRuns),
              result = projr (outcome (last meas)),
              memoryUsed = memoryUsed r,
              opsPerSecond = js_div (Fin n)
                (js_div (Fin (sum_list (map (elapsed p) meas) / real config_testRuns)) (Fin 1000)),
              error = None\<rparr>))"
proof -
  define ws where "ws = min (n / 100) 1000000"
  define first where "first =
    (if \<not> dev then warmup (logged fn) ws config_warmupRuns (w, [])
     else Some (Inr (), (w, [])))"
  have tb: "tryBlock (observing p) dev nm (logged fn) n (w, []) =
    (case first of
        None \<Rightarrow> None
      | Some (Inl err, w1) \<Rightarrow> Some (Inl err, w1)
      | Some (Inr u, w1) \<Rightarrow>
          let memoryBefore = getMemoryUsage (observing p) w1
          in case measured (observing p) dev (logged fn) n config_testRuns [] (Number 0) w1 of
               None \<Rightarrow> None
             | Some (Inl err, w2) \<Rightarrow> Some (Inl err, w2)
             | Some (Inr (timings, finalResult), w2) \<Rightarrow>
                 let memoryAfter = getMemoryUsage (observing p) w2
                 in if timings = []
                    then Some (Inl (ErrorObject ''Reduce of empty array with no initial value''), w2)
                    else let avgTime = sum_list timings / real (length timings)
                         in Some (Inr \<lparr>name = nm, time = Fin avgTime,
                               result = finalResult,
                               memoryUsed = Fin (memoryAfter - memoryBefore),
                               opsPerSecond = js_div (Fin n) (js_div (Fin avgTime) (Fin 1000)),
                               error = None\<rparr>, w2))"
    by (simp add: tryBlock_def first_def ws_def Let_def)
  from assms tb obtain res1 w1 cs1 where first: "first = Some (res1, (w1, cs1))"
    by (cases first) auto
  have warm: "calls_of fn ws cs1 \<and>
     (case res1 of Inr u \<Rightarrow> length cs1 = (if dev then 0 else config_warmupRuns) \<and> all_returned cs1
      | Inl e \<Rightarrow> stopped_by e cs1)"
  proof (cases dev)
    case True
    with first show ?thesis by (auto simp: first_def)
  next
    case False
    with first have "warmup (logged fn) ws config_warmupRuns (w, []) = Some (res1, (w1, cs1))"
      by (simp add: first_def)
    from warmup_logged [OF this] False show ?thesis by auto
  qed
  show ?thesis
  proof (cases res1)
    case (Inl e)
    with assms tb first have "res = Inl e" "cs = cs1" by simp_all
    then show ?thesis
      using warm Inl by (auto simp: calls_of_def)
  next
    case (Inr u)
    with warm have w1: "calls_of fn ws cs1" "length cs1 = (if dev then 0 else config_warmupRuns)"
      "all_returned cs1" by simp_all
    from assms tb first Inr obtain res2 w2 cs2 where
      m: "measured (observing p) dev (logged fn) n config_testRuns [] (Number 0) (w1, cs1) =
          Some (res2, (w2, cs2))"
      by (cases "measured (observing p) dev (logged fn) n config_testRuns [] (Number 0) (w1, cs1)")
        (auto simp: Let_def)
    from measured_logged [OF m] obtain new where
      new: "cs2 = cs1 @ new" "calls_of fn n new"
        "case res2 of
          Inr (ts', final') \<Rightarrow> length new = config_testRuns \<and> all_returned new \<and>
            ts' = [] @ map (elapsed p) new \<and>
            Inr final' = (if new = [] then Inr (Number 0) else outcome (last new))
        | Inl e \<Rightarrow> stopped_by e new"
      by blast
    have all: "\<forall>c \<in> set cs2. fn (arg c) (before c) = Some (outcome c, after c)"
      using w1(1) new(1,2) by (auto simp: calls_of_def)
    show ?thesis
    proof (cases res2)
      case (Inl e)
      with assms tb first Inr m have "res = Inl e" "cs = cs2" by (simp_all add: Let_def)
      then show ?thesis
        using all new(1,3) Inl w1(3) by (simp add: stopped_by_append)
    next
      case r2: (Inr a)
      obtain ts' final' where a: "a = (ts', final')" by (cases a)
      from new(3) r2 a have n3: "length new = config_testRuns" "all_returned new"
        "ts' = map (elapsed p) new"
        "Inr final' = (if new = [] then Inr (Number 0) else outcome (last new))"
        by simp_all
      have ne: "new \<noteq> []" "ts' \<noteq> []" "length ts' = config_testRuns"
        using n3(1,3) by (auto simp: config_testRuns_def)
      have fin: "final' = projr (outcome (last new))"
        using n3(4) ne(1) by (metis sum.sel(2))
      define r' where "r' = \<lparr>name = nm, time = Fin (sum_list ts' / real (length ts')),
                 result = final',
                 memoryUsed = Fin (getMemoryUsage (observing p) (w2, cs2)
                    - getMemoryUsage (observing p) (w1, cs1)),
                 opsPerSecond = js_div (Fin n) (js_div (Fin (sum_list ts' / real (length ts'))) (Fin 1000)),
                 error = None\<rparr>"
      from assms tb first Inr m r2 a ne
      have res: "res = Inr r'" "cs = cs2"
        by (auto simp: Let_def r'_def simp del: js_div.simps)
      have r'_eq: "r' = \<lparr>name = nm,
              time = Fin (sum_list (map (elapsed p) new) / real config_testRuns),
              result = projr (outcome (last new)),
              memoryUsed = memoryUsed r',
              opsPerSecond = js_div (Fin n)
                (js_div (Fin (sum_list (map (elapsed p) new) / real config_testRuns)) (Fin 1000)),
              error = None\<rparr>"
        using n3(3) ne(3) fin by (simp add: r'_def del: js_div.simps)
      have "cs = cs1 @ new \<and> all_returned cs \<and>
         length cs1 = (if dev then 0 else config_warmupRuns) \<and>
         calls_of fn (min (n / 100) 1000000) cs1 \<and>
         length new = config_testRuns \<and> calls_of fn n new \<and>
         r' = \<lparr>name = nm,
              time = Fin (sum_list (map (elapsed p) new) / real config_testRuns),
              result = projr (outcome (last new)),
              memoryUsed = memoryUsed r',
              opsPerSecond = js_div (Fin n)
                (js_div (Fin (sum_list (map (elapsed p) new) / real config_testRuns)) (Fin 1000)),
              error = None\<rparr>"
        using res(2) new(1,2) n3(1,2) w1 r'_eq
        by (simp add: all_returned_append ws_def del: js_div.simps)
      then have "\<exists>warm meas. cs = warm @ meas \<and> all_returned cs \<and>
         length warm = (if dev then 0 else config_warmupRuns) \<and>
         calls_of fn (min (n / 100) 1000000) warm \<and>
         length meas = config_testRuns \<and> calls_of fn n meas \<and>
         r' = \<lparr>name = nm,
              time = Fin (sum_list (map (elapsed p) meas) / real config_testRuns),
              result = projr (outcome (last meas)),
              memoryUsed = memoryUsed r',
              opsPerSecond = js_div (Fin n)
                (js_div (Fin (sum_list (map (elapsed p) meas) / real config_testRuns)) (Fin 1000)),
              error = None\<rparr>"
        by blast
      then show ?thesis
        using all res by (simp del: js_div.simps)
    qed
  qed
qed

lemma runBenchmark_logged:
  assumes "runBenchmark (observing p) dev nm (logged fn) n (w, []) = Some (r, (w', cs))"
  shows "(\<forall>c \<in> set cs. fn (arg c) (before c) = Some (outcome c, after c)) \<and>
    ((\<exists>e. stopped_by e cs \<and>
        r = \<lparr>name = nm, time = PosInf, result = Number 0, memoryUsed = Fin 0,
             opsPerSecond = Fin 0, error = Some (message e)\<rparr>) \<or>
     (\<exists>warm meas. cs = warm @ meas \<and> all_returned cs \<and>
         length warm = (if dev then 0 else config_warmupRuns) \<and>
         calls_of fn (min (n / 100) 1000000) warm \<and>
         length meas = config_testRuns \<and> calls_of fn n meas \<and>
         r = \<lparr>name = nm,
              time = Fin (sum_list (map (elapsed p) meas) / real config_testRuns),
              result = projr (outcome (last meas)),
              memoryUsed = memoryUsed r,
              opsPerSecond = js_div (Fin n)
                (js_div (Fin (sum_list (map (elapsed p) meas) / real config_testRuns)) (Fin 1000)),
              error = None\<rparr>))"
proof -
  from assms obtain res where
    t: "tryBlock (observing p) dev nm (logged fn) n (w, []) = Some (res, (w', cs))"
    and r: "r = (case res of Inr r' \<Rightarrow> r' | Inl err \<Rightarrow>
       \<lparr>name = nm, time = PosInf, result = Number 0, memoryUsed = Fin 0,
        opsPerSecond = Fin 0, error = Some (message err)\<rparr>)"
    by (auto simp: runBenchmark_def split: option.splits sum.splits)
  from tryBlock_logged [OF t] r show ?thesis
    by (cases res) (auto simp del: js_div.simps)
qed

lemma warmup_logged_same:
  "warmup fn ws k w = map_option (\<lambda>(res, (w', cs')). (res, w')) (warmup (logged fn) ws k (w, cs))"
proof (induction k arbitrary: w cs)
  case 0
  show ?case by simp
next
  case (Suc k)
  show ?case
  proof (cases "fn ws w")
    case None
    then show ?thesis by (simp add: logged_apply)
  next
    case (Some a)
    obtain r w1 where a: "a = (r, w1)" by (cases a)
    show ?thesis
    proof (cases r)
      case (Inl e)
      with Some a show ?thesis by (simp add: logged_apply)
    next
      case (Inr v)
      with Some a Suc.IH [of w1] show ?thesis by (simp add: logged_apply)
    qed
  qed
qed

lemma measured_logged_same:
  "measured p dev fn n k ts final w =
   map_option (\<lambda>(res, (w', cs')). (res, w'))
     (measured (observing p) dev (logged fn) n k ts final (w, cs))"
proof (induction k arbitrary: w cs ts final)
  case 0
  show ?case by simp
next
  case (Suc k)
  define w0 where "w0 = (case gc p of
      Some collect \<Rightarrow> if \<not> dev then collect (collect w) else w | None \<Rightarrow> w)"
  have l: "measured (observing p) dev (logged fn) n (Suc k) ts final (w, cs) =
      (case logged fn n (w0, cs) of
         None \<Rightarrow> None
       | Some (Inl err, s') \<Rightarrow> Some (Inl err, s')
       | Some (Inr v, s') \<Rightarrow>
           measured (observing p) dev (logged fn) n k
             (ts @ [now (observing p) s' - now p w0]) v s')"
    by (cases "gc p") (auto simp: w0_def Let_def split: option.split sum.split prod.split)
  have r: "measured p dev fn n (Suc k) ts final w =
      (case fn n w0 of
         None \<Rightarrow> None
       | Some (Inl err, s') \<Rightarrow> Some (Inl err, s')
       | Some (Inr v, s') \<Rightarrow> measured p dev fn n k (ts @ [now p s' - now p w0]) v s')"
    by (cases "gc p") (auto simp: w0_def Let_def split: option.split sum.split prod.split)
  show ?case
  proof (cases "fn n w0")
    case None
    then show ?thesis by (simp only: l r) (simp add: logged_apply)
  next
    case (Some a)
    obtain res w1 where a: "a = (res, w1)" by (cases a)
    show ?thesis
    proof (cases res)
      case (Inl e)
      with Some a show ?thesis by (simp only: l r) (simp add: logged_apply)
    next
      case (Inr v)
      with Some a Suc.IH [of "ts @ [now p w1 - now p w0]" v w1] show ?thesis
        by (simp only: l r) (simp add: logged_apply)
    qed
  qed
qed

lemma tryBlock_logged_same:
  "tryBlock p dev nm fn n w =
   map_option (\<lambda>(res, (w', cs')). (res, w')) (tryBlock (observing p) dev nm (logged fn) n (w, cs))"
proof -
  define ws where "ws = min (n / 100) 1000000"
  have w: "warmup fn ws config_warmupRuns w =
      map_option (\<lambda>(res, (w', cs')). (res, w')) (warmup (logged fn) ws config_warmupRuns (w, cs))"
    by (rule warmup_logged_same)
  have m: "\<And>w1 cs1. measured p dev fn n config_testRuns [] (Number 0) w1 =
      map_option (\<lambda>(res, (w', cs')). (res, w'))
        (measured (observing p) dev (logged fn) n config_testRuns [] (Number 0) (w1, cs1))"
    by (rule measured_logged_same)
  show ?thesis
  proof (cases dev)
    case True
    show ?thesis
      unfolding tryBlock_def using True m [of w cs]
      by (auto simp: Let_def simp del: js_div.simps split: option.splits sum.splits prod.splits)
  next
    case False
    show ?thesis
    proof (cases "warmup (logged fn) ws config_warmupRuns (w, cs)")
      case None
      with w False show ?thesis by (simp add: tryBlock_def ws_def Let_def)
    next
      case (Some a)
      obtain res w1 cs1 where a: "a = (res, (w1, cs1))" by (cases a) auto
      show ?thesis
        unfolding tryBlock_def using False Some a w m [of w1 cs1]
        by (auto simp: Let_def ws_def simp del: js_div.simps
            split: option.splits sum.splits prod.splits)
    qed
  qed
qed

lemma runBenchmark_logged_same:
  "runBenchmark p dev nm fn n w =
   map_option (\<lambda>(r, (w', cs')). (r, w')) (runBenchmark (observing p) dev nm (logged fn) n (w, cs))"
  unfolding runBenchmark_def tryBlock_logged_same [of p dev nm fn n w cs]
  by (auto split: option.splits sum.splits prod.splits)







lemma warmup_returns:
  assumes "\<forall>w. fn ws w \<noteq> None"
  shows "warmup fn ws k w \<noteq> None"
proof (induction k arbitrary: w)
  case 0
  show ?case by simp
next
  case (Suc k)
  have "fn ws w \<noteq> None" using assms by blast
  then obtain r w1 where "fn ws w = Some (r, w1)" by (cases "fn ws w") auto
  then show ?case using Suc.IH [of w1] by (cases r) simp_all
qed

lemma measured_returns:
  assumes "\<forall>w. fn n w \<noteq> None"
  shows "measured p dev fn n k ts final w \<noteq> None"
proof (induction k arbitrary: w ts final)
  case 0
  show ?case by simp
next
  case (Suc k)
  define w0 where "w0 = (case gc p of
      Some collect \<Rightarrow> if \<not> dev then collect (collect w) else w | None \<Rightarrow> w)"
  have r: "measured p dev fn n (Suc k) ts final w =
      (case fn n w0 of
         None \<Rightarrow> None
       | Some (Inl err, s') \<Rightarrow> Some (Inl err, s')
       | Some (Inr v, s') \<Rightarrow> measured p dev fn n k (ts @ [now p s' - now p w0]) v s')"
    by (cases "gc p") (auto simp: w0_def Let_def split: option.split sum.split prod.split)
  have "fn n w0 \<noteq> None" using assms by blast
  then obtain res w1 where f: "fn n w0 = Some (res, w1)" by (cases "fn n w0") auto
  show ?case
  proof (cases res)
    case (Inl e)
    with f show ?thesis by (simp only: r) simp
  next
    case (Inr v)
    with f Suc.IH [of "ts @ [now p w1 - now p w0]" v w1] show ?thesis by (simp only: r) simp
  qed
qed

lemma tryBlock_returns:
  assumes "\<forall>w. fn (min (n / 100) 1000000) w \<noteq> None" "\<forall>w. fn n w \<noteq> None"
  shows "tryBlock p dev nm fn n w \<noteq> None"
proof -
  define first where "first =
    (if \<not> dev then warmup fn (min (n / 100) 1000000) config_warmupRuns w else Some (Inr (), w))"
  have "first \<noteq> None"
    using warmup_returns [of fn "min (n / 100) 1000000" config_warmupRuns w] assms(1)
    by (simp add: first_def)
  then obtain res1 w1 where first: "first = Some (res1, w1)" by (cases first) auto
  have tb: "tryBlock p dev nm fn n w =
    (case first of
        None \<Rightarrow> None
      | Some (Inl err, w1) \<Rightarrow> Some (Inl err, w1)
      | Some (Inr u, w1) \<Rightarrow>
          let memoryBefore = getMemoryUsage p w1
          in case measured p dev fn n config_testRuns [] (Number 0) w1 of
               None \<Rightarrow> None
             | Some (Inl err, w2) \<Rightarrow> Some (Inl err, w2)
             | Some (Inr (timings, finalResult), w2) \<Rightarrow>
                 let memoryAfter = getMemoryUsage p w2
                 in if timings = []
                    then Some (Inl (ErrorObject ''Reduce of empty array with no initial value''), w2)
                    else let avgTime = sum_list timings / real (length timings)
                         in Some (Inr \<lparr>name = nm, time = Fin avgTime,
                               result = finalResult,
                               memoryUsed = Fin (memoryAfter - memoryBefore),
                               opsPerSecond = js_div (Fin n) (js_div (Fin avgTime) (Fin 1000)),
                               error = None\<rparr>, w2))"
    by (simp add: tryBlock_def first_def Let_def)
  show ?thesis
  proof (cases res1)
    case (Inl e)
    with first show ?thesis by (simp add: tb)
  next
    case (Inr u)
    have "measured p dev fn n config_testRuns [] (Number 0) w1 \<noteq> None"
      using measured_returns [of fn n p dev config_testRuns "[]" "Number 0" w1] assms(2)
      by simp
    then obtain res2 w2 where m: "measured p dev fn n config_testRuns [] (Number 0) w1 =
        Some (res2, w2)"
      by (cases "measured p dev fn n config_testRuns [] (Number 0) w1") auto
    show ?thesis
    proof (cases res2)
      case (Inl e)
      with first Inr m show ?thesis by (simp add: tb)
    next
      case r2: (Inr a)
      obtain ts final where "a = (ts, final)" by (cases a)
      with first Inr m r2 show ?thesis
        by (simp add: tb Let_def del: js_div.simps)
    qed
  qed
qed

lemma runBenchmark_returns:
  assumes "\<forall>w. fn (min (n / 100) 1000000) w \<noteq> None" "\<forall>w. fn n w \<noteq> None"
  shows "\<exists>r w'. runBenchmark p dev nm fn n w = Some (r, w')"
proof -
  have "tryBlock p dev nm fn n w \<noteq> None"
    using tryBlock_returns [of fn n p dev nm w] assms by simp
  then obtain res w' where t: "tryBlock p dev nm fn n w = Some (res, w')"
    by (cases "tryBlock p dev nm fn n w") auto
  then show ?thesis
    by (cases res) (simp_all add: runBenchmark_def)
qed

lemma suite_results:
  assumes "suite p dev bs n rs w = Some (rs', w')"
  shows "\<exists>new. rs' = rs @ new \<and>
    list_all2 (\<lambda>b r. \<exists>w1 w2. runBenchmark p dev (fst b) (snd b) n w1 = Some (r, w2)) bs new"
  using assms
proof (induction bs arbitrary: rs w)
  case Nil
  then show ?case by simp
next
  case (Cons b bs)
  obtain nm fn where b: "b = (nm, fn)" by (cases b)
  from Cons.prems b obtain r w1 where run: "runBenchmark p dev nm fn n w = Some (r, w1)"
    by (cases "runBenchmark p dev nm fn n w") auto
  define w3 where "w3 = paused p (if dev then 100 else 1000)
      (case gc p of Some collect \<Rightarrow> if \<not> dev then collect w1 else w1 | None \<Rightarrow> w1)"
  from Cons.prems b run have rest: "suite p dev bs n (rs @ [r]) w3 = Some (rs', w')"
    by (simp add: w3_def Let_def)
  from Cons.IH [OF rest] obtain new where
    new: "rs' = (rs @ [r]) @ new"
      "list_all2 (\<lambda>b r. \<exists>w1 w2. runBenchmark p dev (fst b) (snd b) n w1 = Some (r, w2)) bs new"
    by blast
  show ?case
    using new run b by (intro exI [of _ "r # new"]) auto
qed

lemma suite_returns:
  assumes "\<forall>b \<in> set bs. \<forall>w. snd b (min (n / 100) 1000000) w \<noteq> None \<and> snd b n w \<noteq> None"
  shows "suite p dev bs n rs w \<noteq> None"
  using assms
proof (induction bs arbitrary: rs w)
  case Nil
  show ?case by simp
next
  case (Cons b bs)
  obtain nm fn where b: "b = (nm, fn)" by (cases b)
  have "\<forall>w. fn (min (n / 100) 1000000) w \<noteq> None" "\<forall>w. fn n w \<noteq> None"
    using Cons.prems b by simp_all
  with runBenchmark_returns [of fn n p dev nm w]
  obtain r w1 where run: "runBenchmark p dev nm fn n w = Some (r, w1)" by blast
  have "\<forall>b \<in> set bs. \<forall>w. snd b (min (n / 100) 1000000) w \<noteq> None \<and> snd b n w \<noteq> None"
    using Cons.prems by simp
  from Cons.IH [OF this] show ?case
    using run b by (simp add: Let_def)
qed


lemma runBenchmark_value:
  assumes run: "runBenchmark p dev nm fn n w = Some (r, w')"
    and val: "\<forall>sz w. \<exists>w'. fn sz w = Some (Inr (F sz), w')"
  shows "error r = None \<and> result r = F n \<and> name r = nm"
proof -
  from runBenchmark_logged_same [of p dev nm fn n w "[]"] run
  obtain cs where l: "runBenchmark (observing p) dev nm (logged fn) n (w, []) = Some (r, (w', cs))"
    by (cases "runBenchmark (observing p) dev nm (logged fn) n (w, [])") auto
  note shape = runBenchmark_logged [OF l]
  have calls: "\<forall>c \<in> set cs. outcome c = Inr (F (arg c))"
  proof
    fix c assume "c \<in> set cs"
    with shape have "fn (arg c) (before c) = Some (outcome c, after c)" by blast
    moreover from val obtain w1 where "fn (arg c) (before c) = Some (Inr (F (arg c)), w1)"
      by blast
    ultimately show "outcome c = Inr (F (arg c))" by simp
  qed
  have no_stop: "\<not> stopped_by e cs" for e
  proof
    assume "stopped_by e cs"
    then have "cs \<noteq> []" "outcome (last cs) = Inl e" by (simp_all add: stopped_by_def)
    moreover from this(1) have "last cs \<in> set cs" by simp
    ultimately show False using calls by auto
  qed
  from shape no_stop obtain warm meas where
    m: "cs = warm @ meas" "length meas = config_testRuns" "calls_of fn n meas"
    and r: "r = \<lparr>name = nm,
              time = Fin (sum_list (map (elapsed p) meas) / real config_testRuns),
              result = projr (outcome (last meas)),
              memoryUsed = memoryUsed r,
              opsPerSecond = js_div (Fin n)
                (js_div (Fin (sum_list (map (elapsed p) meas) / real config_testRuns)) (Fin 1000)),
              error = None\<rparr>"
    by blast
  have ne: "meas \<noteq> []" using m(2) by (auto simp: config_testRuns_def)
  then have "last meas \<in> set cs" "arg (last meas) = n"
    using m(1,3) by (auto simp: calls_of_def)
  with calls have "outcome (last meas) = Inr (F n)" by auto
  then have "result r = F n" by (subst r) simp
  moreover have "error r = None" by (subst r) simp
  moreover have "name r = nm" by (subst r) simp
  ultimately show ?thesis by simp
qed

lemma formatResults_not_verified:
  assumes "a \<in> set results" "b \<in> set results" "no_error a" "no_error b"
    "toString (result a) \<noteq> toString (result b)"
  shows "\<exists>rk. formatResults results = Ranked rk \<and> \<not> verified rk \<and>
    set (map entry (rows rk)) = {r \<in> set results. no_error r}"
proof -
  have ne: "filter no_error results \<noteq> []"
    using assms(1,3) by (auto simp: filter_empty_conv)
  from ne obtain first others where
    s: "array_sort (\<lambda>a b. js_sub (time a) (time b)) (filter no_error results) = first # others"
    and r: "formatResults results = Ranked \<lparr>
       rows = map (\<lambda>(index, r).
           \<lparr>rank = index + 1, entry = r, speedup = js_div (time first) (time r),
            speedupStr = padStart 7 (toFixed2 (js_div (time first) (time r)) @ ''x'')\<rparr>)
         (enumerate 0 (first # others)),
       failed = filter (\<lambda>r. \<not> no_error r) results,
       winner = first,
       verified = (card (set (map (\<lambda>r. toString (result r)) (filter no_error results))) = 1)\<rparr>"
    by (rule formatResults_ranked)
  let ?S = "set (map (\<lambda>r. toString (result r)) (filter no_error results))"
  have "toString (result a) \<in> ?S" "toString (result b) \<in> ?S"
    using assms(1-4) by auto
  then have "card ?S \<noteq> 1"
    using assms(5) by (metis card_1_singletonE singletonD)
  moreover have "set (first # others) = {r \<in> set results. no_error r}"
    using set_array_sort [of "\<lambda>a b. js_sub (time a) (time b)" "filter no_error results"]
    by (simp only: s) auto
  moreover have "map entry (map (\<lambda>(index, r).
           \<lparr>rank = index + 1, entry = r, speedup = js_div (time first) (time r),
            speedupStr = padStart 7 (toFixed2 (js_div (time first) (time r)) @ ''x'')\<rparr>)
         (enumerate 0 (first # others))) = first # others"
    by (rule map_entry_rows)
  ultimately show ?thesis
    unfolding r by (simp only: report.inject ranking.simps simp_thms ex_simps)
qed





section \<open>Example runs\<close>

lemma decimal_examples:
  "decimal 0 = ''0''"
  "decimal 4999999950000000 = ''4999999950000000''"
  "decimal 499999999500000000 = ''499999999500000000''"
  by (simp_all add: decimal_def)

lemma mathFormula_examples:
  "mathFormula 100000000 = 4999999950000000"
  "mathFormula 1000000000 = 499999999500000000"
  by (simp_all add: mathFormula_def num_mul_def num_sub_def roundTiesToEven_def compute_bitlen)

lemma benchmarks_large:
  assumes "10000 < testSize"
  shows "length (benchmarks p testSize) = 9"
    "benchmarks p testSize ! 0 = (''Mathematical Formula'',
        synchronous p ''Mathematical Formula'' (\<lambda>n. Some (Inr (Number (mathFormula n)))))"
    "benchmarks p testSize ! 8 = (''Realistic Stress Test'', stressStrategy p)"
  using assms by (simp_all add: benchmarks_def)

lemma broken_run:
  "runBenchmark (observing example_platform) False ''Broken''
     (logged (\<lambda>n w. Some (Inl (OtherValue ''boom''), w + 1))) 1000 (0, []) =
   Some (\<lparr>name = ''Broken'', time = PosInf, result = Number 0, memoryUsed = Fin 0,
           opsPerSecond = Fin 0, error = Some ''boom''\<rparr>,
         (1, [\<lparr>arg = 10, before = 0, outcome = Inl (OtherValue ''boom''), after = 1\<rparr>]))"
  by (simp add: runBenchmark_def tryBlock_def numerals_as_Suc logged_apply)

lemma stress_run:
  "runBenchmark (observing example_platform) False ''Realistic Stress Test''
     (logged (stressStrategy example_platform)) 1000 (0, []) =
   Some (\<lparr>name = ''Realistic Stress Test'', time = Fin 2, result = Number 0,
           memoryUsed = Fin 0, opsPerSecond = Fin 500000, error = None\<rparr>,
         (16,
          [\<lparr>arg = 10, before = 0, outcome = Inr (Number 0), after = 2\<rparr>,
           \<lparr>arg = 10, before = 2, outcome = Inr (Number 0), after = 4\<rparr>,
           \<lparr>arg = 10, before = 4, outcome = Inr (Number 0), after = 6\<rparr>,
           \<lparr>arg = 1000, before = 6, outcome = Inr (Number 0), after = 8\<rparr>,
           \<lparr>arg = 1000, before = 8, outcome = Inr (Number 0), after = 10\<rparr>,
           \<lparr>arg = 1000, before = 10, outcome = Inr (Number 0), after = 12\<rparr>,
           \<lparr>arg = 1000, before = 12, outcome = Inr (Number 0), after = 14\<rparr>,
           \<lparr>arg = 1000, before = 14, outcome = Inr (Number 0), after = 16\<rparr>]))"
  by (simp add: runBenchmark_def tryBlock_def numerals_as_Suc logged_apply stressStrategy_def
      example_platform_def getMemoryUsage_def observing_def Let_def)





section \<open>Termination on safe sizes\<close>

lemma sumLoop_returns:
  assumes "0 \<le> i" "limit \<le> 2 ^ 53"
  shows "\<exists>r. sumLoop limit i s = Some r"
  using assms(1)
proof (induction "nat (limit - i)" arbitrary: i s)
  case 0
  then have "\<not> i < limit" by simp
  then show ?case by (subst sumLoop.simps) simp
next
  case (Suc k)
  then have lt: "i < limit" by linarith
  have i1: "num_add i 1 = i + 1"
    using Suc.prems lt assms(2) by (intro num_add_exact) simp
  have "\<exists>r. sumLoop limit (i + 1) (num_add s i) = Some r"
    using Suc.hyps Suc.prems by (intro Suc.hyps(1)) linarith+
  then show ?case
    using lt by (subst sumLoop.simps) (simp add: i1)
qed

lemma assemblyStyle_unrolled_returns:
  assumes "0 \<le> i" "i \<le> limit" "16 dvd (limit - i)" "limit \<le> 2 ^ 53"
  shows "\<exists>r. assemblyStyle_unrolled limit i s = Some (limit, r)"
  using assms(1,2,3)
proof (induction "nat (limit - i)" arbitrary: i s rule: less_induct)
  case less
  show ?case
  proof (cases "i < limit")
    case False
    with less.prems have "i = limit" by simp
    then show ?thesis by (subst assemblyStyle_unrolled.simps) simp
  next
    case True
    from less.prems(3) obtain k where k: "limit - i = 16 * k" by (elim dvdE)
    with True have step: "i + 16 \<le> limit" by presburger
    have i16: "num_add i 16 = i + 16"
      using less.prems(1) step assms(4) by (intro num_add_exact) simp
    have dv: "16 dvd (limit - (i + 16))"
      using less.prems(3) by presburger
    have "\<exists>r. assemblyStyle_unrolled limit (i + 16) (num_add s (unrolled16 i)) = Some (limit, r)"
      using less.prems(1) step dv by (intro less.hyps) linarith+
    then show ?thesis
      using True by (subst assemblyStyle_unrolled.simps) (simp add: i16)
  qed
qed

lemma simdStyle_vectors_returns:
  assumes "0 \<le> i" "i \<le> limit" "8 dvd (limit - i)" "limit \<le> 2 ^ 53"
  shows "\<exists>r. simdStyle_vectors limit i s = Some (limit, r)"
  using assms(1,2,3)
proof (induction "nat (limit - i)" arbitrary: i s rule: less_induct)
  case less
  show ?case
  proof (cases "i < limit")
    case False
    with less.prems have "i = limit" by simp
    then show ?thesis by (subst simdStyle_vectors.simps) simp
  next
    case True
    from less.prems(3) obtain k where k: "limit - i = 8 * k" by (elim dvdE)
    with True have step: "i + 8 \<le> limit" by presburger
    have i8: "num_add i 8 = i + 8"
      using less.prems(1) step assms(4) by (intro num_add_exact) simp
    have dv: "8 dvd (limit - (i + 8))"
      using less.prems(3) by presburger
    have "\<exists>r. simdStyle_vectors limit (i + 8)
        (num_add s (num_add (num_mul i 8) 28)) = Some (limit, r)"
      using less.prems(1) step dv by (intro less.hyps) linarith+
    then show ?thesis
      using True by (subst simdStyle_vectors.simps) (simp add: i8 Let_def)
  qed
qed

lemma stride_limit_safe:
  assumes "0 \<le> n" "n \<le> 2 ^ 53" "0 < k"
  shows "num_mul (n div k) k = n div k * k" "0 \<le> n div k * k" "n div k * k \<le> n"
proof -
  show le: "n div k * k \<le> n"
    using assms(3) by (metis div_mult_mod_eq le_add_same_cancel1 pos_mod_sign)
  show nn: "0 \<le> n div k * k"
    using assms by (simp add: pos_imp_zdiv_nonneg_iff)
  show "num_mul (n div k) k = n div k * k"
    using le nn assms(2) by (intro num_mul_exact) simp
qed

lemma assemblyStyleLoop_returns:
  assumes "0 \<le> n" "n \<le> 2 ^ 53"
  shows "\<exists>r. assemblyStyleLoop n = Some r"
proof -
  define limit where "limit = n div 16 * 16"
  have lim: "num_mul (n div 16) 16 = limit" "0 \<le> limit" "limit \<le> n"
    unfolding limit_def using stride_limit_safe [OF assms, of 16] by simp_all
  have "\<exists>r. assemblyStyle_unrolled limit 0 0 = Some (limit, r)"
    using lim assms(2) by (intro assemblyStyle_unrolled_returns) (simp_all add: limit_def)
  then obtain r where first: "assemblyStyle_unrolled limit 0 0 = Some (limit, r)" by blast
  have "\<exists>r'. sumLoop n limit r = Some r'"
    using lim(2) assms(2) by (rule sumLoop_returns)
  then show ?thesis
    using first by (simp add: assemblyStyleLoop_def lim)
qed

lemma simdStyle_returns:
  assumes "0 \<le> n" "n \<le> 2 ^ 53"
  shows "\<exists>r. simdStyle n = Some r"
proof -
  define limit where "limit = n div 8 * 8"
  have lim: "num_mul (n div 8) 8 = limit" "0 \<le> limit" "limit \<le> n"
    unfolding limit_def using stride_limit_safe [OF assms, of 8] by simp_all
  have "\<exists>r. simdStyle_vectors limit 0 0 = Some (limit, r)"
    using lim assms(2) by (intro simdStyle_vectors_returns) (simp_all add: limit_def)
  then obtain r where first: "simdStyle_vectors limit 0 0 = Some (limit, r)" by blast
  have "\<exists>r'. sumLoop n limit r = Some r'"
    using lim(2) assms(2) by (rule sumLoop_returns)
  then show ?thesis
    using first by (simp add: simdStyle_def lim)
qed

lemma optimizedLoop_returns:
  assumes "n \<le> 2 ^ 53"
  shows "\<exists>r. optimizedLoop n = Some r"
  using sumLoop_returns [of 0 n 0] assms by (simp add: optimizedLoop_def)

lemma cacheFriendly_chunks_returns:
  assumes "0 \<le> chunk" "0 < chunkSize" "chunkSize \<le> 2 ^ 52" "n \<le> 2 ^ 52"
  shows "\<exists>r. cacheFriendly_chunks n chunkSize chunk s = Some r"
  using assms(1)
proof (induction "nat (n - chunk)" arbitrary: chunk s rule: less_induct)
  case less
  show ?case
  proof (cases "chunk < n")
    case False
    then show ?thesis by (subst cacheFriendly_chunks.simps) simp
  next
    case True
    define stop where "stop = min (chunk + chunkSize) n"
    have next_chunk: "num_add chunk chunkSize = chunk + chunkSize"
      using less.prems True assms by (intro num_add_exact) simp
    have "\<exists>r. sumLoop stop chunk s = Some r"
      using less.prems assms(4) by (intro sumLoop_returns) (simp_all add: stop_def)
    then obtain s' where inner: "sumLoop stop chunk s = Some s'" by blast
    have "\<exists>r. cacheFriendly_chunks n chunkSize (chunk + chunkSize) s' = Some r"
      using less.prems True assms(2) by (intro less.hyps) linarith+
    moreover have "cacheFriendly_chunks n chunkSize chunk s =
        sumLoop stop chunk s \<bind> cacheFriendly_chunks n chunkSize (chunk + chunkSize)"
      using True by (subst cacheFriendly_chunks.simps) (simp add: next_chunk stop_def)
    ultimately show ?thesis
      using inner by simp
  qed
qed

lemma cacheFriendly_returns:
  assumes "n \<le> 2 ^ 52"
  shows "\<exists>r. cacheFriendly n = Some r"
proof -
  have size: "num_mul 16 1000 = 16000"
    using num_mul_exact [of 16 1000] by simp
  have "\<exists>r. cacheFriendly_chunks n 16000 0 0 = Some r"
    using assms by (intro cacheFriendly_chunks_returns) simp_all
  then show ?thesis
    by (simp add: cacheFriendly_def size)
qed

lemma typedArray_fill_returns:
  assumes "0 \<le> i" "currentSize \<le> 2 ^ 53"
  shows "\<exists>r. typedArray_fill currentSize start i s = Some r"
  using assms(1)
proof (induction "nat (currentSize - i)" arbitrary: i s)
  case 0
  then have "\<not> i < currentSize" by simp
  then show ?case by (subst typedArray_fill.simps) simp
next
  case (Suc k)
  then have lt: "i < currentSize" by linarith
  have i1: "num_add i 1 = i + 1"
    using Suc.prems lt assms(2) by (intro num_add_exact) simp
  have "\<exists>r. typedArray_fill currentSize start (i + 1) (num_add s (num_add start i)) = Some r"
    using Suc.hyps Suc.prems by (intro Suc.hyps(1)) linarith+
  then show ?case
    using lt by (subst typedArray_fill.simps) (simp add: i1 Let_def)
qed

lemma typedArray_batches_returns:
  assumes "0 < batchSize" "batchSize \<le> 2 ^ 52" "n \<le> 2 ^ 52" "batches \<le> 2 ^ 52"
    "(batches - 1) * batchSize < n" "0 \<le> batch"
  shows "\<exists>r. typedArray_batches n batchSize batches batch s = Some (Inr r)"
  using assms(6)
proof (induction "nat (batches - batch)" arbitrary: batch s)
  case 0
  then have "\<not> batch < batches" by simp
  then show ?case by (subst typedArray_batches.simps) simp
next
  case (Suc k)
  then have lt: "batch < batches" by linarith
  define start where "start = batch * batchSize"
  define stop where "stop = min (start + batchSize) n"
  have "batch * batchSize \<le> (batches - 1) * batchSize"
    using lt assms(1) by (intro mult_right_mono) simp_all
  then have start_lt: "start < n"
    unfolding start_def using assms(5) by linarith
  have start_nn: "0 \<le> start"
    unfolding start_def using assms(1) Suc.prems by simp
  have m: "num_mul batch batchSize = start"
    unfolding start_def using start_lt start_nn assms(3)
    by (intro num_mul_exact) (simp add: start_def)
  have a: "num_add start batchSize = start + batchSize"
    using start_lt start_nn assms(1,2,3) by (intro num_add_exact) simp
  have stop_bounds: "start < stop" "stop \<le> n"
    unfolding stop_def using start_lt assms(1) by simp_all
  have size: "num_sub stop start = stop - start"
    using stop_bounds start_nn assms(3) by (intro num_sub_exact) simp
  have b1: "num_add batch 1 = batch + 1"
    using lt assms(4) Suc.prems by (intro num_add_exact) simp
  have "\<exists>r. typedArray_fill (stop - start) start 0 s = Some r"
    using stop_bounds start_nn assms(3) by (intro typedArray_fill_returns) simp_all
  then obtain s' where fill: "typedArray_fill (stop - start) start 0 s = Some s'" by blast
  have rest: "\<exists>r. typedArray_batches n batchSize batches (batch + 1) s' = Some (Inr r)"
    using Suc.hyps Suc.prems by (intro Suc.hyps(1)) linarith+
  have "typedArray_batches n batchSize batches batch s =
      typedArray_fill (stop - start) start 0 s \<bind>
        typedArray_batches n batchSize batches (batch + 1)"
    using lt stop_bounds
    by (subst typedArray_batches.simps) (simp add: m a size b1 Let_def flip: stop_def)
  then show ?case
    using fill rest by simp
qed

lemma typedArrayOptimal_returns:
  assumes "0 \<le> n" "n \<le> 2 ^ 52"
  shows "\<exists>r. typedArrayOptimal n = Some (Inr r)"
proof (cases "n = 0")
  case True
  then show ?thesis by (simp add: typedArrayOptimal_def)
next
  case False
  with assms have pos: "0 < n" by simp
  define batchSize where "batchSize = min 10000000 n"
  define batches where "batches = ceil_quotient n batchSize"
  have bs: "0 < batchSize" "batchSize \<le> 2 ^ 52" "batchSize \<le> n"
    using pos assms(2) by (simp_all add: batchSize_def)
  have b: "n \<le> batches * batchSize" "(batches - 1) * batchSize < n"
    unfolding batches_def using ceil_quotient_bounds [OF bs(1), of n] by simp_all
  have "batches - 1 < n"
  proof (rule ccontr)
    assume "\<not> batches - 1 < n"
    then have "n * 1 \<le> (batches - 1) * batchSize"
      using bs(1) pos by (intro mult_mono) simp_all
    with b(2) show False by simp
  qed
  then have "batches \<le> 2 ^ 52" using assms(2) by simp
  then have "\<exists>r. typedArray_batches n batchSize batches 0 0 = Some (Inr r)"
    using bs assms(2) b(2) by (intro typedArray_batches_returns) simp_all
  moreover have "batchSize \<noteq> 0" using bs(1) by simp
  ultimately show ?thesis
    by (simp add: typedArrayOptimal_def flip: batchSize_def batches_def)
qed

lemma promise_all_all_resolved:
  assumes "\<forall>q \<in> set ps. \<exists>v. q = Resolved v"
  shows "\<exists>vs. promise_all ps = Resolved vs"
proof -
  have "first_rejection ps = None \<and> (\<exists>vs. resolved_values ps = Some vs)"
    using assms
  proof (induction ps)
    case Nil
    show ?case by simp
  next
    case (Cons q ps)
    then obtain v where "q = Resolved v" by auto
    with Cons show ?case by auto
  qed
  then show ?thesis by (auto simp: promise_all_def)
qed

lemma parallelWorkers_returns:
  assumes "0 < P" "0 \<le> n" "n \<le> 2 ^ 53"
  shows "\<exists>v. parallelWorkers P undisturbed n = Resolved v"
proof -
  have t: "tiles 0 (workRanges P n) n" by (rule workRanges_tiles [OF assms])
  have "\<forall>q \<in> set (map (\<lambda>(start, stop). createWorker undisturbed start stop) (workRanges P n)).
      \<exists>v. q = Resolved v"
  proof
    fix q assume "q \<in> set (map (\<lambda>(start, stop). createWorker undisturbed start stop)
        (workRanges P n))"
    then obtain start stop where r: "(start, stop) \<in> set (workRanges P n)"
      and q: "q = createWorker undisturbed start stop"
      by auto
    from tiles_within [OF t r] have "0 \<le> start" "stop \<le> n" by simp_all
    then have "\<exists>v. sumLoop stop start 0 = Some v"
      using assms(3) by (intro sumLoop_returns) simp_all
    then show "\<exists>v. q = Resolved v"
      by (auto simp: q createWorker_def undisturbed_def worker_def)
  qed
  from promise_all_all_resolved [OF this] show ?thesis
    by (auto simp: parallelWorkers_def)
qed

lemma main_returns:
  assumes "0 < cpus p" "\<forall>w. spawn p w = undisturbed"
  shows "\<exists>report w'. main p isFullTest isDevelopment w = Some (report, w')"
proof -
  define testSize :: real where "testSize = (if isFullTest then 1000000000 else 100000000)"
  define m :: int where "m = (if isFullTest then 1000000000 else 100000000)"
  have m: "0 \<le> m" "m \<le> 2 ^ 52" "m \<le> 2 ^ 53" "\<lfloor>testSize\<rfloor> = m"
    by (simp_all add: m_def testSize_def)
  have small: "(0::int) \<le> 1000000" "(1000000::int) \<le> 2 ^ 52" "(1000000::int) \<le> 2 ^ 53"
    by simp_all
  have sizes: "min (testSize / 100) 1000000 = 1000000" "\<not> testSize \<le> 10000"
    by (simp_all add: testSize_def)
  have "\<forall>b \<in> set (benchmarks p testSize).
      \<forall>w. snd b (min (testSize / 100) 1000000) w \<noteq> None \<and> snd b testSize w \<noteq> None"
    unfolding sizes(1)
    using assemblyStyleLoop_returns [OF small(1,3)] assemblyStyleLoop_returns [OF m(1,3)]
      simdStyle_returns [OF small(1,3)] simdStyle_returns [OF m(1,3)]
      optimizedLoop_returns [OF small(3)] optimizedLoop_returns [OF m(3)]
      cacheFriendly_returns [OF small(2)] cacheFriendly_returns [OF m(2)]
      typedArrayOptimal_returns [OF small(1,2)] typedArrayOptimal_returns [OF m(1,2)]
      parallelWorkers_returns [OF assms(1) small(1,3)] parallelWorkers_returns [OF assms(1) m(1,3)]
    by (auto simp: benchmarks_def sizes(2) synchronous_def stressStrategy_def
        parallelStrategy_def assms(2) m(4))
  from suite_returns [OF this, of p isDevelopment "[]" w]
  obtain results w' where
    s: "suite p isDevelopment (benchmarks p testSize) testSize [] w = Some (results, w')"
    by (cases "suite p isDevelopment (benchmarks p testSize) testSize [] w") auto
  have "main p isFullTest isDevelopment w =
      (case suite p isDevelopment (benchmarks p testSize) testSize [] w of
         None \<Rightarrow> None
       | Some (results, w') \<Rightarrow> Some (formatResults results, w'))"
    by (simp add: main_def config_maxNumber_def testSize_def)
  with s show ?thesis by simp
qed

section \<open>Claims about the summation strategies\<close>

text \<open>
  C9. At \<open>N = 10^9\<close> the closed form on numbers loses nothing: the product
  \<open>10^9 * (10^9 - 1)\<close> has an odd part of 51 bits, so it is a binary64 value, and
  \<open>mathFormula\<close> returns the exact integer 499999999500000000, the value of the
  arbitrary-precision \<open>mathFormulaBigInt\<close>.
\<close>

theorem mathFormula_billion_exact:
  "mathFormula 1000000000 = 499999999500000000 \<and>
   mathFormula 1000000000 = mathFormulaBigInt 1000000000"
  by (simp add: mathFormula_def mathFormulaBigInt_def num_mul_def num_sub_def
      roundTiesToEven_def compute_bitlen)

text \<open>
  C1, as stated, fails: not every strategy returns \<open>N * (N - 1) / 2\<close> for every \<open>N\<close>.
  At \<open>N = 2^27 + 2\<close> the product \<open>N * (N - 1)\<close> lies above \<open>2^54\<close> and is not a
  multiple of 4, so \<open>mathFormula\<close> rounds it and returns 9007199456067584, one less
  than the sum.
\<close>

theorem mathFormula_counterexample:
  "mathFormula 134217730 \<noteq> 134217730 * (134217730 - 1) div 2"
  by (simp add: mathFormula_def num_mul_def num_sub_def roundTiesToEven_def compute_bitlen)

text \<open>
  C1, amended. \<open>mathFormulaBigInt\<close> returns \<open>N * (N - 1) / 2\<close> for every \<open>N \<ge> 0\<close>. For
  \<open>0 \<le> N \<le> 2^27\<close>, the sizes whose sum stays below \<open>2^53\<close>, every strategy on numbers
  ends and returns \<open>N * (N - 1) / 2\<close>: \<open>tailRecursive\<close> when the stack has more than \<open>N\<close>
  frames, \<open>parallelWorkers\<close> when at least one CPU is reported and no worker is
  disturbed. Up to \<open>2^52\<close>, which includes 1000000000, every loop strategy still ends
  and returns a number: the sum with every addition rounded.
\<close>

theorem strategies_return_sum:
  assumes "0 \<le> n"
  shows "mathFormulaBigInt n = n * (n - 1) div 2 \<and>
    (n \<le> 2 ^ 27 \<longrightarrow>
       mathFormula n = n * (n - 1) div 2 \<and>
       optimizedLoop n = Some (n * (n - 1) div 2) \<and>
       assemblyStyleLoop n = Some (n * (n - 1) div 2) \<and>
       typedArrayOptimal n = Some (Inr (n * (n - 1) div 2)) \<and>
       simdStyle n = Some (n * (n - 1) div 2) \<and>
       cacheFriendly n = Some (n * (n - 1) div 2) \<and>
       (nat n < frames \<longrightarrow> tailRecursive frames n 0 0 = Inr (n * (n - 1) div 2)) \<and>
       (0 < numWorkers \<longrightarrow>
          parallelWorkers numWorkers undisturbed n = Resolved (n * (n - 1) div 2))) \<and>
    (n \<le> 2 ^ 52 \<longrightarrow>
       (\<exists>r. optimizedLoop n = Some r) \<and>
       (\<exists>r. assemblyStyleLoop n = Some r) \<and>
       (\<exists>r. typedArrayOptimal n = Some (Inr r)) \<and>
       (\<exists>r. simdStyle n = Some r) \<and>
       (\<exists>r. cacheFriendly n = Some r) \<and>
       (0 < numWorkers \<longrightarrow> (\<exists>r. parallelWorkers numWorkers undisturbed n = Resolved r)))"
proof -
  have big: "mathFormulaBigInt n = n * (n - 1) div 2"
    by (simp add: mathFormulaBigInt_def)
  have rec: "tailRecursive frames n 0 0 = Inr (n * (n - 1) div 2)"
    if "n \<le> 2 ^ 27" "nat n < frames"
    using tailRecursive_exact [of 0 0 n frames] sum_below_2_53 [OF assms that(1)] that(2) assms
    by (simp add: gauss_int)
  have exact: "n \<le> 2 ^ 27 \<longrightarrow>
       mathFormula n = n * (n - 1) div 2 \<and>
       optimizedLoop n = Some (n * (n - 1) div 2) \<and>
       assemblyStyleLoop n = Some (n * (n - 1) div 2) \<and>
       typedArrayOptimal n = Some (Inr (n * (n - 1) div 2)) \<and>
       simdStyle n = Some (n * (n - 1) div 2) \<and>
       cacheFriendly n = Some (n * (n - 1) div 2) \<and>
       (nat n < frames \<longrightarrow> tailRecursive frames n 0 0 = Inr (n * (n - 1) div 2)) \<and>
       (0 < numWorkers \<longrightarrow>
          parallelWorkers numWorkers undisturbed n = Resolved (n * (n - 1) div 2))"
    using assms rec
    by (simp add: mathFormula_exact optimizedLoop_exact assemblyStyleLoop_exact
        typedArrayOptimal_exact simdStyle_exact cacheFriendly_exact parallelWorkers_exact)
  have returns: "n \<le> 2 ^ 52 \<longrightarrow>
       (\<exists>r. optimizedLoop n = Some r) \<and>
       (\<exists>r. assemblyStyleLoop n = Some r) \<and>
       (\<exists>r. typedArrayOptimal n = Some (Inr r)) \<and>
       (\<exists>r. simdStyle n = Some r) \<and>
       (\<exists>r. cacheFriendly n = Some r) \<and>
       (0 < numWorkers \<longrightarrow> (\<exists>r. parallelWorkers numWorkers undisturbed n = Resolved r))"
  proof
    assume le: "n \<le> 2 ^ 52"
    then have le': "n \<le> 2 ^ 53" by simp
    show "(\<exists>r. optimizedLoop n = Some r) \<and>
       (\<exists>r. assemblyStyleLoop n = Some r) \<and>
       (\<exists>r. typedArrayOptimal n = Some (Inr r)) \<and>
       (\<exists>r. simdStyle n = Some r) \<and>
       (\<exists>r. cacheFriendly n = Some r) \<and>
       (0 < numWorkers \<longrightarrow> (\<exists>r. parallelWorkers numWorkers undisturbed n = Resolved r))"
      using optimizedLoop_returns [OF le'] assemblyStyleLoop_returns [OF assms le']
        typedArrayOptimal_returns [OF assms le] simdStyle_returns [OF assms le']
        cacheFriendly_returns [OF le] parallelWorkers_returns [OF _ assms le']
      by (intro conjI impI) assumption+
  qed
  from big exact returns show ?thesis by (intro conjI)
qed

theorem strategies_return_sum_witness:
  "mathFormulaBigInt 100 = 4950 \<and> mathFormula 100 = 4950 \<and> optimizedLoop 100 = Some 4950 \<and>
   assemblyStyleLoop 100 = Some 4950 \<and> typedArrayOptimal 100 = Some (Inr 4950) \<and>
   simdStyle 100 = Some 4950 \<and> cacheFriendly 100 = Some 4950 \<and>
   tailRecursive 101 100 0 0 = Inr 4950 \<and> parallelWorkers 4 undisturbed 100 = Resolved 4950"
  using strategies_return_sum [of 100 101 4] by simp

text \<open>
  C2, as stated, fails: with \<open>N = 10\<close> and \<open>P = 4\<close> the chunk size is 3 and the ranges
  are \<open>[0,3) [3,6) [6,9) [9,10)\<close>; the last has length 1, which differs from
  \<open>N / P = 2.5\<close> by 1.5.
\<close>

theorem workRanges_length_counterexample:
  "\<not> (\<forall>(start, stop) \<in> set (workRanges 4 10). \<bar>real_of_int (stop - start) - 10 / 4\<bar> \<le> 1)"
  by (simp add: workRanges_4_10)

text \<open>
  C2, amended. For \<open>P \<ge> 1\<close> workers and \<open>0 \<le> N \<le> 2^53\<close> the dispatched ranges cover
  \<open>[0, N)\<close> exactly, each starts where the one before stops, no two overlap, every
  range is non-empty and no longer than \<open>ceil (N / P)\<close>, and every range but the last
  has length exactly \<open>ceil (N / P)\<close>, which differs from \<open>N / P\<close> by less than 1. The
  last range is only as long as what is left.
\<close>

theorem workRanges_cover:
  assumes "0 < P" "0 \<le> n" "n \<le> 2 ^ 53"
  shows "(\<Union>(start, stop) \<in> set (workRanges P n). {start..<stop}) = {0..<n} \<and>
    (\<forall>j. Suc j < length (workRanges P n) \<longrightarrow>
       snd (workRanges P n ! j) = fst (workRanges P n ! Suc j)) \<and>
    (\<forall>j k. j < k \<longrightarrow> k < length (workRanges P n) \<longrightarrow>
       {fst (workRanges P n ! j)..<snd (workRanges P n ! j)} \<inter>
       {fst (workRanges P n ! k)..<snd (workRanges P n ! k)} = {}) \<and>
    (\<forall>(start, stop) \<in> set (workRanges P n).
       0 < stop - start \<and> stop - start \<le> ceil_quotient n (int P)) \<and>
    (\<forall>(start, stop) \<in> set (butlast (workRanges P n)).
       stop - start = ceil_quotient n (int P)) \<and>
    \<bar>real_of_int (ceil_quotient n (int P)) - real_of_int n / real P\<bar> < 1"
proof -
  let ?rs = "workRanges P n"
  let ?c = "ceil_quotient n (int P)"
  have t: "tiles 0 ?rs n" by (rule workRanges_tiles [OF assms])
  have cover: "(\<Union>(start, stop) \<in> set ?rs. {start..<stop}) = {0..<n}"
    by (rule tiles_union [OF t])
  have contiguous: "\<forall>j. Suc j < length ?rs \<longrightarrow> snd (?rs ! j) = fst (?rs ! Suc j)"
    using tiles_contiguous [OF t] by blast
  have disjoint: "\<forall>j k. j < k \<longrightarrow> k < length ?rs \<longrightarrow>
      {fst (?rs ! j)..<snd (?rs ! j)} \<inter> {fst (?rs ! k)..<snd (?rs ! k)} = {}"
  proof (intro allI impI)
    fix j k assume "j < k" "k < length ?rs"
    then have "snd (?rs ! j) \<le> fst (?rs ! k)" by (rule tiles_ordered [OF t])
    then show "{fst (?rs ! j)..<snd (?rs ! j)} \<inter> {fst (?rs ! k)..<snd (?rs ! k)} = {}"
      by auto
  qed
  have bounds: "n \<le> ?c * int P" "(?c - 1) * int P < n"
    using ceil_quotient_bounds [of "int P" n] assms(1) by simp_all
  have lengths: "(\<forall>(start, stop) \<in> set ?rs. 0 < stop - start \<and> stop - start \<le> ?c) \<and>
      (\<forall>(start, stop) \<in> set (butlast ?rs). stop - start = ?c)"
  proof (cases "n = 0")
    case True
    then show ?thesis using assms(1) by (simp add: workRanges_zero)
  next
    case False
    with assms(2) have "0 < n" by simp
    then have c: "0 < ?c" using assms(1) by (intro ceil_quotient_pos) simp_all
    have "n \<le> int P * ?c" using bounds(1) by (simp add: mult.commute)
    from workRanges_from_lengths [OF c assms(3) this, of 0]
    show ?thesis by (simp add: workRanges_def)
  qed
  have "real_of_int n \<le> real_of_int (?c * int P)"
    using bounds(1) by (simp only: of_int_le_iff)
  moreover have "real_of_int ((?c - 1) * int P) < real_of_int n"
    using bounds(2) by (simp only: of_int_less_iff)
  ultimately have close: "\<bar>real_of_int ?c - real_of_int n / real P\<bar> < 1"
    using assms(1) by (simp add: field_simps abs_less_iff)
  show ?thesis
    using cover contiguous disjoint lengths close by simp
qed

theorem workRanges_cover_witness:
  "(\<Union>(start, stop) \<in> set (workRanges 4 1000000). {start..<stop}) = {0..<1000000} \<and>
   \<bar>real_of_int (ceil_quotient 1000000 4) - 1000000 / 4\<bar> < 1"
  using workRanges_cover [of 4 1000000] by simp

section \<open>Claims about ranking and verification\<close>

text \<open>
  C6. Verification collects the strings of the results without error into a set. Nothing
  is reported when there is none; otherwise the report says "verified" exactly when the
  set has one element, and "verification failed" exactly when it has more than one.
  Results with an error take no part: dropping them changes nothing.
\<close>

theorem verification_counts_strings:
  "verification (formatResults results) =
     (if filter no_error results = [] then None
      else Some (card ((\<lambda>r. toString (result r)) ` {r \<in> set results. no_error r}) = 1)) \<and>
   (verification (formatResults results) = Some False \<longleftrightarrow>
      1 < card ((\<lambda>r. toString (result r)) ` {r \<in> set results. no_error r})) \<and>
   verification (formatResults results) = verification (formatResults (filter no_error results))"
proof (cases "filter no_error results = []")
  case True
  then have none: "{r \<in> set results. no_error r} = {}"
    by (simp add: filter_empty_conv)
  show ?thesis
    using True by (simp add: formatResults_def none)
next
  case False
  let ?S = "(\<lambda>r. toString (result r)) ` {r \<in> set results. no_error r}"
  have S: "set (map (\<lambda>r. toString (result r)) (filter no_error results)) = ?S"
    by auto
  have "?S \<noteq> {}" using False by (auto simp: filter_empty_conv)
  then have pos: "0 < card ?S" by (simp add: card_gt_0_iff)
  from False obtain first others where
    r: "formatResults results = Ranked \<lparr>
       rows = map (\<lambda>(index, r).
           \<lparr>rank = index + 1, entry = r, speedup = js_div (time first) (time r),
            speedupStr = padStart 7 (toFixed2 (js_div (time first) (time r)) @ ''x'')\<rparr>)
         (enumerate 0 (first # others)),
       failed = filter (\<lambda>r. \<not> no_error r) results,
       winner = first,
       verified = (card (set (map (\<lambda>r. toString (result r)) (filter no_error results))) = 1)\<rparr>"
    by (rule formatResults_ranked)
  have "filter no_error (filter no_error results) \<noteq> []" using False by simp
  then obtain first' others' where
    r': "formatResults (filter no_error results) = Ranked \<lparr>
       rows = map (\<lambda>(index, r).
           \<lparr>rank = index + 1, entry = r, speedup = js_div (time first') (time r),
            speedupStr = padStart 7 (toFixed2 (js_div (time first') (time r)) @ ''x'')\<rparr>)
         (enumerate 0 (first' # others')),
       failed = filter (\<lambda>r. \<not> no_error r) (filter no_error results),
       winner = first',
       verified = (card (set (map (\<lambda>r. toString (result r))
         (filter no_error (filter no_error results)))) = 1)\<rparr>"
    by (rule formatResults_ranked)
  have v: "verification (formatResults results) = Some (card ?S = 1)"
    unfolding r by (simp only: verification.simps ranking.simps S)
  have v': "verification (formatResults (filter no_error results)) = Some (card ?S = 1)"
    unfolding r' by (simp only: verification.simps ranking.simps filter_filter conj_absorb S)
  show ?thesis
    unfolding v v' using False pos by auto
qed

text \<open>
  C8, as stated, fails: a single succeeded result with mean time 0 is the fastest, and its
  own speedup \<open>0 / 0\<close> is NaN, not 1.
\<close>

theorem speedup_of_fastest_counterexample:
  "map speedup (table (formatResults
     [\<lparr>name = ''Mathematical Formula'', time = Fin 0, result = Number 0,
       memoryUsed = Fin 0, opsPerSecond = NaN, error = None\<rparr>])) = [NaN] \<and>
   map speedup (table (formatResults
     [\<lparr>name = ''Mathematical Formula'', time = Fin 0, result = Number 0,
       memoryUsed = Fin 0, opsPerSecond = NaN, error = None\<rparr>])) \<noteq> [Fin 1]"
  by (simp add: formatResults_def no_error_def array_sort_def Let_def)

text \<open>
  C8, amended. When at least one result has no error and no such result has a NaN time,
  the table holds exactly the results without error, in ascending order of time; the
  winner is the first row and no result without error is faster; every row's speedup is
  the winner's time divided by the row's time; and the winner's own speedup is 1 when
  its time is finite and not 0.
\<close>

theorem ranking_sorted_speedup:
  assumes "filter no_error results \<noteq> []" "\<forall>r \<in> set results. no_error r \<longrightarrow> time r \<noteq> NaN"
  shows "\<exists>rk. formatResults results = Ranked rk \<and>
      mset (map entry (rows rk)) = mset (filter no_error results) \<and>
      sorted_wrt (\<lambda>x y. js_le (time x) (time y)) (map entry (rows rk)) \<and>
      winner rk = entry (hd (rows rk)) \<and>
      (\<forall>r \<in> set results. no_error r \<longrightarrow> js_le (time (winner rk)) (time r)) \<and>
      (\<forall>row \<in> set (rows rk). speedup row = js_div (time (winner rk)) (time (entry row))) \<and>
      (\<forall>t. time (winner rk) = Fin t \<longrightarrow> t \<noteq> 0 \<longrightarrow> speedup (hd (rows rk)) = Fin 1)"
proof -
  let ?valid = "filter no_error results"
  let ?sorted = "array_sort (\<lambda>a b. js_sub (time a) (time b)) ?valid"
  from assms(1) obtain first others where
    s: "?sorted = first # others" and
    r: "formatResults results = Ranked \<lparr>
       rows = map (\<lambda>(index, r).
           \<lparr>rank = index + 1, entry = r, speedup = js_div (time first) (time r),
            speedupStr = padStart 7 (toFixed2 (js_div (time first) (time r)) @ ''x'')\<rparr>)
         (enumerate 0 (first # others)),
       failed = filter (\<lambda>r. \<not> no_error r) results,
       winner = first,
       verified = (card (set (map (\<lambda>r. toString (result r)) (filter no_error results))) = 1)\<rparr>"
    by (rule formatResults_ranked)
  define rk where "rk = \<lparr>
       rows = map (\<lambda>(index, r).
           \<lparr>rank = index + 1, entry = r, speedup = js_div (time first) (time r),
            speedupStr = padStart 7 (toFixed2 (js_div (time first) (time r)) @ ''x'')\<rparr>)
         (enumerate 0 (first # others)),
       failed = filter (\<lambda>r. \<not> no_error r) results,
       winner = first,
       verified = (card (set (map (\<lambda>r. toString (result r)) (filter no_error results))) = 1)\<rparr>"
  have entries: "map entry (rows rk) = first # others"
    unfolding rk_def ranking.simps by (rule map_entry_rows)
  have win: "winner rk = first" by (simp add: rk_def)
  have nonan: "\<forall>b \<in> set ?valid. time b \<noteq> NaN" using assms(2) by simp
  have sorted: "sorted_wrt (\<lambda>x y. js_le (time x) (time y)) (first # others)"
    using sorted_array_sort [OF nonan] by (simp only: s)
  have perm: "mset (first # others) = mset ?valid"
    using mset_array_sort [of "\<lambda>a b. js_sub (time a) (time b)" ?valid] by (simp only: s)
  have first_valid: "first \<in> set ?valid"
    using perm by (metis list.set_intros(1) set_mset_mset)
  have refl: "js_le (time first) (time first)"
    using nonan first_valid by (cases "time first") auto
  have least: "\<forall>r \<in> set results. no_error r \<longrightarrow> js_le (time first) (time r)"
  proof (intro ballI impI)
    fix r assume "r \<in> set results" "no_error r"
    then have "r \<in> set ?valid" by simp
    then have "r \<in> set (first # others)"
      using perm by (metis set_mset_mset)
    then show "js_le (time first) (time r)"
      using sorted refl by auto
  qed
  have hd_row: "hd (rows rk) = \<lparr>rank = 1, entry = first, speedup = js_div (time first) (time first),
      speedupStr = padStart 7 (toFixed2 (js_div (time first) (time first)) @ ''x'')\<rparr>"
    by (simp add: rk_def)
  have speed: "\<forall>row \<in> set (rows rk). speedup row = js_div (time (winner rk)) (time (entry row))"
    unfolding win unfolding rk_def ranking.simps
    by (intro ballI) (erule rows_speedup)
  have own: "\<forall>t. time (winner rk) = Fin t \<longrightarrow> t \<noteq> 0 \<longrightarrow> speedup (hd (rows rk)) = Fin 1"
    by (simp add: hd_row win)
  have "formatResults results = Ranked rk" by (simp only: r rk_def)
  moreover have "winner rk = entry (hd (rows rk))" by (simp add: hd_row win)
  ultimately show ?thesis
    using entries sorted perm least speed own win by (intro exI [of _ rk]) simp
qed

theorem ranking_sorted_speedup_witness:
  "filter no_error
     [\<lparr>name = ''Optimized Loop'', time = Fin 50, result = Number 45,
       memoryUsed = Fin 0, opsPerSecond = Fin 200, error = None\<rparr>,
      \<lparr>name = ''Parallel Workers'', time = PosInf, result = Number 0,
       memoryUsed = Fin 0, opsPerSecond = Fin 0, error = Some ''Worker timeout''\<rparr>,
      \<lparr>name = ''Mathematical Formula'', time = Fin 10, result = Number 45,
       memoryUsed = Fin 0, opsPerSecond = Fin 1000, error = None\<rparr>] \<noteq> [] \<and>
   (\<exists>rk. formatResults
     [\<lparr>name = ''Optimized Loop'', time = Fin 50, result = Number 45,
       memoryUsed = Fin 0, opsPerSecond = Fin 200, error = None\<rparr>,
      \<lparr>name = ''Parallel Workers'', time = PosInf, result = Number 0,
       memoryUsed = Fin 0, opsPerSecond = Fin 0, error = Some ''Worker timeout''\<rparr>,
      \<lparr>name = ''Mathematical Formula'', time = Fin 10, result = Number 45,
       memoryUsed = Fin 0, opsPerSecond = Fin 1000, error = None\<rparr>] = Ranked rk \<and>
      map (\<lambda>r. time (entry r)) (rows rk) = [Fin 10, Fin 50] \<and>
      speedup (hd (rows rk)) = Fin 1)"
proof -
  let ?results = "[\<lparr>name = ''Optimized Loop'', time = Fin 50, result = Number 45,
       memoryUsed = Fin 0, opsPerSecond = Fin 200, error = None\<rparr>,
      \<lparr>name = ''Parallel Workers'', time = PosInf, result = Number 0,
       memoryUsed = Fin 0, opsPerSecond = Fin 0, error = Some ''Worker timeout''\<rparr>,
      \<lparr>name = ''Mathematical Formula'', time = Fin 10, result = Number 45,
       memoryUsed = Fin 0, opsPerSecond = Fin 1000, error = None\<rparr>]"
  have valid: "filter no_error ?results \<noteq> []"
    by (simp add: no_error_def)
  have nonan: "\<forall>r \<in> set ?results. no_error r \<longrightarrow> time r \<noteq> NaN"
    by simp
  from ranking_sorted_speedup [OF valid nonan] obtain rk where
    rk: "formatResults ?results = Ranked rk"
    and own: "\<forall>t. time (winner rk) = Fin t \<longrightarrow> t \<noteq> 0 \<longrightarrow> speedup (hd (rows rk)) = Fin 1"
    by blast
  have eval: "map (\<lambda>r. time (entry r)) (table (formatResults ?results)) = [Fin 10, Fin 50]"
    "time (case formatResults ?results of Ranked r \<Rightarrow> winner r) = Fin 10"
    by (simp_all add: formatResults_def no_error_def array_sort_def Let_def)
  have order: "map (\<lambda>r. time (entry r)) (rows rk) = [Fin 10, Fin 50]"
    using eval(1) by (simp add: rk)
  have "time (winner rk) = Fin 10"
    using eval(2) by (simp add: rk)
  then have one: "speedup (hd (rows rk)) = Fin 1"
    using own by simp
  show ?thesis
  proof (intro conjI exI [of _ rk])
    show "filter no_error ?results \<noteq> []" by (rule valid)
    show "formatResults ?results = Ranked rk" by (rule rk)
    show "map (\<lambda>r. time (entry r)) (rows rk) = [Fin 10, Fin 50]" by (rule order)
    show "speedup (hd (rows rk)) = Fin 1" by (rule one)
  qed
qed

text \<open>
  C7, as stated, fails: for times 50, 10 and 100 the speedups are not 1, 5 and 10. The
  speedup is the fastest time divided by the row's time, so slower rows get less than 1.
\<close>

theorem speedups_counterexample:
  "map speedup (table (formatResults
     [\<lparr>name = ''Optimized Loop'', time = Fin 50, result = Number 45,
       memoryUsed = Fin 0, opsPerSecond = Fin 200, error = None\<rparr>,
      \<lparr>name = ''Mathematical Formula'', time = Fin 10, result = Number 45,
       memoryUsed = Fin 0, opsPerSecond = Fin 1000, error = None\<rparr>,
      \<lparr>name = ''Cache Friendly'', time = Fin 100, result = Number 45,
       memoryUsed = Fin 0, opsPerSecond = Fin 100, error = None\<rparr>]))
   \<noteq> [Fin 1, Fin 5, Fin 10]"
  by (simp add: formatResults_def no_error_def array_sort_def Let_def)

text \<open>
  C7, amended. Three succeeded results with times 50, 10 and 100 are ranked in the order
  10, 50, 100, with speedups 1, 1/5 and 1/10, printed as 1.00x, 0.20x and 0.10x (padded
  to seven characters).
\<close>

theorem ranking_example:
  assumes "no_error a" "no_error b" "no_error c"
    and "time a = Fin 50" "time b = Fin 10" "time c = Fin 100"
  shows "map entry (table (formatResults [a, b, c])) = [b, a, c] \<and>
    map speedup (table (formatResults [a, b, c])) = [Fin 1, Fin (1 / 5), Fin (1 / 10)] \<and>
    map speedupStr (table (formatResults [a, b, c])) = [''  1.00x'', ''  0.20x'', ''  0.10x'']"
proof -
  have pad: "replicate 2 CHR '' '' = ''  ''"
    by (simp add: numeral_2_eq_2)
  show ?thesis
    using assms
    by (simp add: formatResults_def array_sort_def Let_def toFixed2_def padStart_def pad)
qed

theorem ranking_example_witness:
  "map (\<lambda>r. name (entry r)) (table (formatResults
     [\<lparr>name = ''Optimized Loop'', time = Fin 50, result = Number 45,
       memoryUsed = Fin 0, opsPerSecond = Fin 200, error = None\<rparr>,
      \<lparr>name = ''Mathematical Formula'', time = Fin 10, result = Number 45,
       memoryUsed = Fin 0, opsPerSecond = Fin 1000, error = None\<rparr>,
      \<lparr>name = ''Cache Friendly'', time = Fin 100, result = Number 45,
       memoryUsed = Fin 0, opsPerSecond = Fin 100, error = None\<rparr>]))
     = [''Mathematical Formula'', ''Optimized Loop'', ''Cache Friendly''] \<and>
   map speedupStr (table (formatResults
     [\<lparr>name = ''Optimized Loop'', time = Fin 50, result = Number 45,
       memoryUsed = Fin 0, opsPerSecond = Fin 200, error = None\<rparr>,
      \<lparr>name = ''Mathematical Formula'', time = Fin 10, result = Number 45,
       memoryUsed = Fin 0, opsPerSecond = Fin 1000, error = None\<rparr>,
      \<lparr>name = ''Cache Friendly'', time = Fin 100, result = Number 45,
       memoryUsed = Fin 0, opsPerSecond = Fin 100, error = None\<rparr>]))
     = [''  1.00x'', ''  0.20x'', ''  0.10x'']"
proof -
  let ?a = "\<lparr>name = ''Optimized Loop'', time = Fin 50, result = Number 45,
       memoryUsed = Fin 0, opsPerSecond = Fin 200, error = None\<rparr>"
  let ?b = "\<lparr>name = ''Mathematical Formula'', time = Fin 10, result = Number 45,
       memoryUsed = Fin 0, opsPerSecond = Fin 1000, error = None\<rparr>"
  let ?c = "\<lparr>name = ''Cache Friendly'', time = Fin 100, result = Number 45,
       memoryUsed = Fin 0, opsPerSecond = Fin 100, error = None\<rparr>"
  have succeeded: "no_error ?a" "no_error ?b" "no_error ?c"
    by (simp_all add: no_error_def)
  have times: "time ?a = Fin 50" "time ?b = Fin 10" "time ?c = Fin 100"
    by simp_all
  note ex = ranking_example [OF succeeded times]
  have "map (\<lambda>r. name (entry r)) (table (formatResults [?a, ?b, ?c])) =
      map name (map entry (table (formatResults [?a, ?b, ?c])))"
    by (simp only: map_map o_def)
  also have "\<dots> = map name [?b, ?a, ?c]"
    using ex by (simp only:)
  finally have "map (\<lambda>r. name (entry r)) (table (formatResults [?a, ?b, ?c])) =
      [''Mathematical Formula'', ''Optimized Loop'', ''Cache Friendly'']"
    by simp
  then show ?thesis
    using ex by (simp only: simp_thms)
qed

section \<open>Claims about the runner and the suite\<close>

text \<open>
  C10, as stated, fails for a strategy that throws: on the example platform a strategy
  that throws at once is called a single time, on the warm-up size 10, and the result's
  time is Infinity, not a mean of five measured times.
\<close>

theorem runBenchmark_protocol_counterexample:
  "runBenchmark (observing example_platform) False ''Broken''
     (logged (\<lambda>n w. Some (Inl (OtherValue ''boom''), w + 1))) 1000 (0, []) =
   Some (\<lparr>name = ''Broken'', time = PosInf, result = Number 0, memoryUsed = Fin 0,
           opsPerSecond = Fin 0, error = Some ''boom''\<rparr>,
         (1, [\<lparr>arg = 10, before = 0, outcome = Inl (OtherValue ''boom''), after = 1\<rparr>]))"
  by (rule broken_run)

text \<open>
  C10, amended. Outside development mode, when \<open>runBenchmark\<close> returns a result with no
  error, it has called the strategy exactly 3 times on the size \<open>min (N / 100) 1000000\<close>
  and then exactly 5 times on \<open>N\<close>, every call returned, the result's value is the one of
  the last call (the warm-up values are dropped), its time is the arithmetic mean of the
  5 measured elapsed times, and its throughput is \<open>N\<close> divided by that time over 1000
  (JavaScript division). Times are real numbers here: rounding is not modelled.
\<close>

theorem runBenchmark_protocol:
  assumes "runBenchmark (observing p) False nm (logged fn) n (w, []) = Some (r, (w', cs))"
    and "error r = None"
  shows "map arg cs = replicate 3 (min (n / 100) 1000000) @ replicate 5 n \<and>
    (\<forall>c \<in> set cs. fn (arg c) (before c) = Some (outcome c, after c)) \<and>
    all_returned cs \<and>
    Inr (result r) = outcome (last cs) \<and>
    time r = Fin (sum_list (map (elapsed p) (drop 3 cs)) / 5) \<and>
    opsPerSecond r = js_div (Fin n) (js_div (time r) (Fin 1000))"
proof -
  note shape = runBenchmark_logged [OF assms(1)]
  have "\<not> (\<exists>e. r = \<lparr>name = nm, time = PosInf, result = Number 0, memoryUsed = Fin 0,
             opsPerSecond = Fin 0, error = Some (message e)\<rparr>)"
    using assms(2) by auto
  with shape obtain warm meas where
    m: "cs = warm @ meas" "all_returned cs" "length warm = config_warmupRuns"
      "calls_of fn (min (n / 100) 1000000) warm" "length meas = config_testRuns"
      "calls_of fn n meas"
    and r: "r = \<lparr>name = nm,
              time = Fin (sum_list (map (elapsed p) meas) / real config_testRuns),
              result = projr (outcome (last meas)),
              memoryUsed = memoryUsed r,
              opsPerSecond = js_div (Fin n)
                (js_div (Fin (sum_list (map (elapsed p) meas) / real config_testRuns)) (Fin 1000)),
              error = None\<rparr>"
    by (auto simp del: js_div.simps)
  have args: "map arg cs = replicate 3 (min (n / 100) 1000000) @ replicate 5 n"
    using calls_of_args [OF m(4)] calls_of_args [OF m(6)] m(1,3,5)
    by (simp add: config_warmupRuns_def config_testRuns_def)
  have ne: "meas \<noteq> []" using m(5) by (auto simp: config_testRuns_def)
  then have last: "last cs = last meas" by (simp add: m(1))
  have "\<not> isl (outcome (last meas))"
    using m(1,2) ne by (auto simp: all_returned_def)
  then have res: "Inr (projr (outcome (last meas))) = outcome (last meas)"
    by (cases "outcome (last meas)") simp_all
  have drop: "drop 3 cs = meas"
    using m(1,3) by (simp add: config_warmupRuns_def)
  have t: "time r = Fin (sum_list (map (elapsed p) meas) / 5)"
    by (subst r) (simp add: config_testRuns_def)
  have o: "opsPerSecond r = js_div (Fin n) (js_div (Fin (sum_list (map (elapsed p) meas) / 5)) (Fin 1000))"
    by (subst r) (simp add: config_testRuns_def del: js_div.simps)
  have v: "result r = projr (outcome (last meas))"
    by (subst r) simp
  have faithful: "\<forall>c \<in> set cs. fn (arg c) (before c) = Some (outcome c, after c)"
    using shape by (rule conjunct1)
  show ?thesis
    using faithful args m(2) res
    by (simp only: last drop t o v simp_thms)
qed

theorem runBenchmark_protocol_witness:
  "map arg
     [\<lparr>arg = 10, before = 0, outcome = Inr (Number 0), after = 2\<rparr>,
      \<lparr>arg = 10, before = 2, outcome = Inr (Number 0), after = 4\<rparr>,
      \<lparr>arg = 10, before = 4, outcome = Inr (Number 0), after = 6\<rparr>,
      \<lparr>arg = 1000, before = 6, outcome = Inr (Number 0), after = 8\<rparr>,
      \<lparr>arg = 1000, before = 8, outcome = Inr (Number 0), after = 10\<rparr>,
      \<lparr>arg = 1000, before = 10, outcome = Inr (Number 0), after = 12\<rparr>,
      \<lparr>arg = 1000, before = 12, outcome = Inr (Number 0), after = 14\<rparr>,
      \<lparr>arg = 1000, before = 14, outcome = Inr (Number 0), after = (16::real)\<rparr>]
     = replicate 3 (min (1000 / 100) 1000000) @ replicate 5 1000 \<and>
   runBenchmark (observing example_platform) False ''Realistic Stress Test''
     (logged (stressStrategy example_platform)) 1000 (0, []) =
   Some (\<lparr>name = ''Realistic Stress Test'', time = Fin 2, result = Number 0,
           memoryUsed = Fin 0, opsPerSecond = Fin 500000, error = None\<rparr>,
         (16,
          [\<lparr>arg = 10, before = 0, outcome = Inr (Number 0), after = 2\<rparr>,
           \<lparr>arg = 10, before = 2, outcome = Inr (Number 0), after = 4\<rparr>,
           \<lparr>arg = 10, before = 4, outcome = Inr (Number 0), after = 6\<rparr>,
           \<lparr>arg = 1000, before = 6, outcome = Inr (Number 0), after = 8\<rparr>,
           \<lparr>arg = 1000, before = 8, outcome = Inr (Number 0), after = 10\<rparr>,
           \<lparr>arg = 1000, before = 10, outcome = Inr (Number 0), after = 12\<rparr>,
           \<lparr>arg = 1000, before = 12, outcome = Inr (Number 0), after = 14\<rparr>,
           \<lparr>arg = 1000, before = 14, outcome = Inr (Number 0), after = 16\<rparr>]))"
proof -
  have "error \<lparr>name = ''Realistic Stress Test'', time = Fin 2, result = Number 0,
           memoryUsed = Fin 0, opsPerSecond = Fin 500000, error = None\<rparr> = None"
    by simp
  from runBenchmark_protocol [OF stress_run this] stress_run show ?thesis
    by (simp only: simp_thms)
qed





text \<open>
  C3. Every run of \<^verbatim>\<open>main\<close> that reaches the report prints "verification failed": the
  results without error include the one of "Mathematical Formula", whose value is
  4999999950000000 (or 499999999500000000 with \<^verbatim>\<open>--full\<close>), and the one of "Realistic
  Stress Test", whose value is 0, so the set of their strings has more than one element.
  And the run does reach the report, with either size, when at least one CPU is reported
  and no worker is disturbed.
\<close>

theorem stress_test_defeats_verification:
  "(\<forall>report w'. main p isFullTest isDevelopment w = Some (report, w') \<longrightarrow>
      verification report = Some False \<and>
      (\<exists>math stress. math \<in> set (map entry (table report)) \<and>
         stress \<in> set (map entry (table report)) \<and>
         name math = ''Mathematical Formula'' \<and> error math = None \<and>
         result math = Number (if isFullTest then 499999999500000000 else 4999999950000000) \<and>
         name stress = ''Realistic Stress Test'' \<and> error stress = None \<and>
         result stress = Number 0)) \<and>
   (0 < cpus p \<longrightarrow> (\<forall>w. spawn p w = undisturbed) \<longrightarrow>
      (\<exists>report w'. main p isFullTest isDevelopment w = Some (report, w')))"
proof (intro conjI allI impI)
  fix report w'
  assume run: "main p isFullTest isDevelopment w = Some (report, w')"
  define testSize :: real where "testSize = (if isFullTest then 1000000000 else 100000000)"
  have big: "10000 < testSize" by (simp add: testSize_def)
  have "main p isFullTest isDevelopment w =
      (case suite p isDevelopment (benchmarks p testSize) testSize [] w of
         None \<Rightarrow> None
       | Some (results, w') \<Rightarrow> Some (formatResults results, w'))"
    by (simp add: main_def config_maxNumber_def testSize_def)
  with run obtain results where
    suite: "suite p isDevelopment (benchmarks p testSize) testSize [] w = Some (results, w')"
    and report: "report = formatResults results"
    by (auto split: option.splits)
  from suite_results [OF suite] have
    all: "list_all2 (\<lambda>b r. \<exists>w1 w2. runBenchmark p isDevelopment (fst b) (snd b) testSize w1 =
            Some (r, w2)) (benchmarks p testSize) results"
    by simp
  have len: "length results = 9"
    using list_all2_lengthD [OF all] benchmarks_large(1) [OF big, of p] by simp
  define math where "math = results ! 0"
  define stress where "stress = results ! 8"
  have mem: "math \<in> set results" "stress \<in> set results"
    using len by (simp_all add: math_def stress_def)
  from list_all2_nthD [OF all, of 0] benchmarks_large [OF big, of p]
  obtain w1 w2 where run_math: "runBenchmark p isDevelopment ''Mathematical Formula''
      (synchronous p ''Mathematical Formula'' (\<lambda>n. Some (Inr (Number (mathFormula n)))))
      testSize w1 = Some (math, w2)"
    by (auto simp: math_def)
  have "error math = None \<and> result math = Number (mathFormula \<lfloor>testSize\<rfloor>) \<and>
      name math = ''Mathematical Formula''"
    by (rule runBenchmark_value [OF run_math]) (simp add: synchronous_def)
  then have math: "error math = None" "name math = ''Mathematical Formula''"
    "result math = Number (if isFullTest then 499999999500000000 else 4999999950000000)"
    by (simp_all add: testSize_def mathFormula_examples)
  from list_all2_nthD [OF all, of 8] benchmarks_large [OF big, of p]
  obtain w3 w4 where run_stress: "runBenchmark p isDevelopment ''Realistic Stress Test''
      (stressStrategy p) testSize w3 = Some (stress, w4)"
    by (auto simp: stress_def)
  have "error stress = None \<and> result stress = Number 0 \<and> name stress = ''Realistic Stress Test''"
    by (rule runBenchmark_value [OF run_stress, where F = "\<lambda>sz. Number 0"])
      (simp add: stressStrategy_def)
  then have stress: "error stress = None" "name stress = ''Realistic Stress Test''"
    "result stress = Number 0"
    by simp_all
  have differ: "toString (result math) \<noteq> toString (result stress)"
    by (simp add: math(3) stress(3) decimal_examples)
  have ok: "no_error math" "no_error stress"
    by (simp_all add: no_error_def math(1) stress(1))
  from formatResults_not_verified [OF mem ok differ] obtain rk where
    rk: "formatResults results = Ranked rk" "\<not> verified rk"
      "set (map entry (rows rk)) = {r \<in> set results. no_error r}"
    by blast
  have in_table: "math \<in> set (map entry (table report))"
    "stress \<in> set (map entry (table report))"
    using rk(3) mem ok by (simp_all add: report rk(1))
  show "verification report = Some False"
    using rk(2) by (simp add: report rk(1))
  show "\<exists>math stress. math \<in> set (map entry (table report)) \<and>
         stress \<in> set (map entry (table report)) \<and>
         name math = ''Mathematical Formula'' \<and> error math = None \<and>
         result math = Number (if isFullTest then 499999999500000000 else 4999999950000000) \<and>
         name stress = ''Realistic Stress Test'' \<and> error stress = None \<and>
         result stress = Number 0"
    using in_table math stress by blast
next
  assume "0 < cpus p" "\<forall>w. spawn p w = undisturbed"
  then show "\<exists>report w'. main p isFullTest isDevelopment w = Some (report, w')"
    by (rule main_returns)
qed

theorem stress_test_defeats_verification_witness:
  "\<exists>report w'. main example_platform True False 0 = Some (report, w') \<and>
     verification report = Some False"
proof -
  note t = stress_test_defeats_verification [of example_platform True False 0]
  have env: "0 < cpus example_platform" "\<forall>w. spawn example_platform w = undisturbed"
    by (simp_all add: example_platform_def)
  from t env obtain report w' where
    m: "main example_platform True False 0 = Some (report, w')"
    by blast
  from t m have "verification report = Some False"
    by blast
  with m show ?thesis by blast
qed

end
